theory Spec2Isabelle
  imports Main "HOL-Library.Word"
begin

unbundle bit_operations_syntax

section \<open>Circular sample buffer (config.h, struct RingBuffer)\<close>

text \<open>
  The two globals \<open>streamBufferSize\<close> and \<open>streamBufferMask\<close> are declared \<open>extern int\<close>
  in config.h and are assigned outside the files at hand, so they are parameters of the
  model. The C type \<open>int\<close> is modelled by \<open>int\<close>: for indices in \<open>[0, N)\<close> and a capacity
  \<open>N \<le> 2^30\<close> no intermediate value of the buffer operations leaves the 32-bit range.
  The backing store \<open>int16_t* buffer\<close> is \<open>None\<close> for the null pointer and otherwise the
  array it points to.
\<close>

type_synonym int16 = "16 word"

record AudioConfig =
  streamBufferSize :: int
  streamBufferMask :: int

record RingBuffer =
  buffer :: "int16 list option"
  readPos :: int
  writePos :: int

text \<open>Modelled from the spec: the capacity is a power of two, and (config.h, comment on
  \<open>streamBufferMask\<close>) the mask is the size minus one.\<close>

definition pow2_config :: "nat \<Rightarrow> AudioConfig" where
  "pow2_config k = \<lparr> streamBufferSize = 2 ^ k, streamBufferMask = 2 ^ k - 1 \<rparr>"

definition availableForWrite :: "AudioConfig \<Rightarrow> RingBuffer \<Rightarrow> int" where
  "availableForWrite c rb =
     (case buffer rb of
        None \<Rightarrow> 0
      | Some xs \<Rightarrow>
          (let currentLevel = (writePos rb - readPos rb + streamBufferSize c) AND streamBufferMask c
           in (streamBufferSize c - 1) - currentLevel))"

definition availableForRead :: "AudioConfig \<Rightarrow> RingBuffer \<Rightarrow> int" where
  "availableForRead c rb =
     (case buffer rb of
        None \<Rightarrow> 0
      | Some xs \<Rightarrow> (writePos rb - readPos rb + streamBufferSize c) AND streamBufferMask c)"

definition push :: "AudioConfig \<Rightarrow> int16 \<Rightarrow> RingBuffer \<Rightarrow> bool \<times> RingBuffer" where
  "push c sample rb =
     (case buffer rb of
        None \<Rightarrow> (False, rb)
      | Some xs \<Rightarrow>
          (let nextWrite = (writePos rb + 1) AND streamBufferMask c
           in if nextWrite = readPos rb then (False, rb)
              else (True, rb \<lparr> buffer := Some (xs[nat (writePos rb) := sample]),
                               writePos := nextWrite \<rparr>)))"

definition pop :: "AudioConfig \<Rightarrow> RingBuffer \<Rightarrow> int16 \<times> RingBuffer" where
  "pop c rb =
     (case buffer rb of
        None \<Rightarrow> (0, rb)
      | Some xs \<Rightarrow>
          (xs ! nat (readPos rb), rb \<lparr> readPos := (readPos rb + 1) AND streamBufferMask c \<rparr>))"

definition clear :: "RingBuffer \<Rightarrow> RingBuffer" where
  "clear rb = rb \<lparr> readPos := 0, writePos := 0 \<rparr>"

text \<open>A sequence of buffer operations, run from left to right.\<close>

datatype rb_op = Push int16 | Pop

fun rb_step :: "AudioConfig \<Rightarrow> RingBuffer \<Rightarrow> rb_op \<Rightarrow> RingBuffer" where
  "rb_step c rb (Push v) = snd (push c v rb)"
| "rb_step c rb Pop = snd (pop c rb)"

definition rb_run :: "AudioConfig \<Rightarrow> rb_op list \<Rightarrow> RingBuffer \<Rightarrow> RingBuffer" where
  "rb_run c ops rb = foldl (rb_step c) rb ops"

text \<open>Pushing a list of samples one after the other: the flags returned and the final state.\<close>

fun push_all :: "AudioConfig \<Rightarrow> int16 list \<Rightarrow> RingBuffer \<Rightarrow> bool list \<times> RingBuffer" where
  "push_all c [] rb = ([], rb)"
| "push_all c (v # vs) rb =
     (let (ok, rb1) = push c v rb; (oks, rb2) = push_all c vs rb1 in (ok # oks, rb2))"

text \<open>The state invariant of a buffer of capacity \<open>2^k\<close>: an allocated array of that many
  samples and both indices inside it. Outside it the array accesses of \<open>push\<close> and \<open>pop\<close>
  are undefined behaviour in C.\<close>

definition rb_inv :: "nat \<Rightarrow> RingBuffer \<Rightarrow> bool" where
  "rb_inv k rb =
     (case buffer rb of
        None \<Rightarrow> False
      | Some xs \<Rightarrow> length xs = 2 ^ k \<and> 0 \<le> readPos rb \<and> readPos rb < 2 ^ k
                   \<and> 0 \<le> writePos rb \<and> writePos rb < 2 ^ k)"

definition rb_example :: RingBuffer where
  "rb_example = \<lparr> buffer = Some [0, 0, 0, 0], readPos = 0, writePos = 0 \<rparr>"

text \<open>
  The samples in flight, oldest first: the cells from \<open>readPos\<close> up to, not including,
  \<open>writePos\<close>, in a buffer of capacity \<open>2^k\<close>. \<open>fifo_run\<close> is a bounded queue of at most
  \<open>N - 1\<close> elements, against which the buffer is compared: a push onto a full queue is
  dropped, a pop from an empty queue is outside the comparison.
\<close>

definition queued :: "nat \<Rightarrow> RingBuffer \<Rightarrow> int16 list" where
  "queued k rb =
     (case buffer rb of
        None \<Rightarrow> []
      | Some xs \<Rightarrow>
          map (\<lambda>i. xs ! nat ((readPos rb + int i) mod 2 ^ k))
            [0 ..< nat (availableForRead (pow2_config k) rb)])"

fun fifo_run :: "nat \<Rightarrow> int16 list \<Rightarrow> rb_op list \<Rightarrow> int16 list option" where
  "fifo_run N q [] = Some q"
| "fifo_run N q (Push v # ops) = fifo_run N (if length q < N - 1 then q @ [v] else q) ops"
| "fifo_run N q (Pop # ops) = (if q = [] then None else fifo_run N (tl q) ops)"

section \<open>Header synthesis (mp4_parser.cpp, generateAdtsHeader)\<close>

type_synonym u8 = "8 word"
type_synonym u32 = "32 word"

text \<open>The descending ladder that sets the local \<open>freqIdx\<close>; the initial value 4 stays when
  no rung applies.\<close>

definition freqIdx :: "int \<Rightarrow> int" where
  "freqIdx sampleRate =
     (if sampleRate \<ge> 96000 then 0
      else if sampleRate \<ge> 88200 then 1
      else if sampleRate \<ge> 64000 then 2
      else if sampleRate \<ge> 48000 then 3
      else if sampleRate \<ge> 44100 then 4
      else if sampleRate \<ge> 32000 then 5
      else if sampleRate \<ge> 24000 then 6
      else if sampleRate \<ge> 22050 then 7
      else if sampleRate \<ge> 16000 then 8
      else if sampleRate \<ge> 12000 then 9
      else 4)"

text \<open>The arguments are C \<open>int\<close>s; each header byte is the \<open>int\<close> expression of the source
  stored into a \<open>uint8_t\<close>, that is, truncated to its low eight bits.\<close>

definition generateAdtsHeader :: "int \<Rightarrow> int \<Rightarrow> int \<Rightarrow> int \<Rightarrow> u8 list" where
  "generateAdtsHeader len profile sampleRate channels =
     [ 0xFF,
       0xF1,
       word_of_int (push_bit 6 1 OR push_bit 2 (freqIdx sampleRate) OR (drop_bit 2 channels AND 1)),
       word_of_int (push_bit 6 (channels AND 3) OR drop_bit 11 len),
       word_of_int (drop_bit 3 len AND 0xFF),
       word_of_int (push_bit 5 (len AND 7) OR 0x1F),
       0xFC ]"

text \<open>The sampling-frequency index is the four-bit field at bits 2..5 of header byte 2.\<close>

definition header_freq_index :: "u8 list \<Rightarrow> u8" where
  "header_freq_index header = drop_bit 2 (header ! 2) AND 0xF"

section \<open>Container parser (mp4_parser.cpp, class MP4Parser)\<close>

subsection \<open>The file handle\<close>

text \<open>
  \<open>File\<close> and \<open>FsFile\<close> belong to the storage libraries, outside the repository. The model
  keeps what the parser uses of them: the bytes of the file and the current position.
  \<open>seek\<close> sets the position; \<open>read\<close> delivers the bytes that exist from the position on,
  at most as many as asked for, and advances the position by the number delivered. A read
  that reaches the end of the file is short: the caller's buffer is written only as far as
  bytes were delivered.
\<close>

record FsFile =
  contents :: "u8 list"
  position :: nat

definition file_seek :: "nat \<Rightarrow> FsFile \<Rightarrow> FsFile" where
  "file_seek pos f = f \<lparr> position := pos \<rparr>"

definition file_read :: "nat \<Rightarrow> FsFile \<Rightarrow> u8 list \<times> FsFile" where
  "file_read len f =
     (let bs = take len (drop (position f) (contents f))
      in (bs, f \<lparr> position := position f + length bs \<rparr>))"

definition closed_file :: FsFile where
  "closed_file = \<lparr> contents = [], position = 0 \<rparr>"

subsection \<open>Parser state and its reading helpers\<close>

text \<open>
  The class has two handles, \<open>flashFile\<close> and \<open>sdFile\<close>, and every helper dispatches on
  \<open>usingFlash\<close> to the same operation of one or the other; the field \<open>activeFile\<close> is the handle
  in use. The fields the parser never reads or writes after construction
  (\<open>objectType\<close>, \<open>stscCount\<close>, \<open>stscIndex\<close>, \<open>nextChunkRunStart\<close>, \<open>stszSampleSize\<close>)
  are left out.
\<close>

record MP4Parser =
  activeFile :: FsFile
  usingFlash :: bool
  stszOffset :: u32
  stcoOffset :: u32
  stscOffset :: u32
  mdatOffset :: u32
  sampleRate :: u32
  channels :: u8
  currentSample :: u32
  totalSamples :: u32
  currentChunk :: u32
  samplesInCurrentChunk :: u32
  samplesReadInChunk :: u32
  currentOffset :: u32

text \<open>The big-endian value of the four bytes of \<open>buf\<close>.\<close>

definition be32 :: "u8 list \<Rightarrow> u32" where
  "be32 buf = push_bit 24 (ucast (buf ! 0)) OR push_bit 16 (ucast (buf ! 1))
                OR push_bit 8 (ucast (buf ! 2)) OR ucast (buf ! 3)"

text \<open>
  \<open>readUI32BE\<close> reads into a local \<open>uint8_t buf[4]\<close> and does not look at the count the
  library returns. After a short read the bytes not delivered are indeterminate in C; the
  model reads them as 0.
\<close>

definition readUI32BE :: "MP4Parser \<Rightarrow> u32 \<times> MP4Parser" where
  "readUI32BE p =
     (let (bs, f) = file_read 4 (activeFile p);
          buf = bs @ replicate (4 - length bs) 0
      in (be32 buf, p \<lparr> activeFile := f \<rparr>))"

definition seek :: "u32 \<Rightarrow> MP4Parser \<Rightarrow> MP4Parser" where
  "seek pos p = p \<lparr> activeFile := file_seek (unat pos) (activeFile p) \<rparr>"

definition read :: "nat \<Rightarrow> MP4Parser \<Rightarrow> u8 list \<times> MP4Parser" where
  "read len p = (let (bs, f) = file_read len (activeFile p) in (bs, p \<lparr> activeFile := f \<rparr>))"

definition getPos :: "MP4Parser \<Rightarrow> u32" where
  "getPos p = of_nat (position (activeFile p))"

subsection \<open>Box scan\<close>

text \<open>
  Every \<open>while\<close> loop of the scan is a recursive function over the loop's variables. The
  box counters only count up to their ceilings and are natural numbers; each loop returns
  the final value of its counter together with the state. Positions and sizes are
  \<open>uint32_t\<close> and wrap around.
\<close>

definition parseStsd :: "u32 \<Rightarrow> MP4Parser \<Rightarrow> bool \<times> MP4Parser" where
  "parseStsd atomSize p =
     (let p1 = seek (getPos p + 8) p;
          (size, p2) = readUI32BE p1;
          (format, p3) = readUI32BE p2
      in if format = 0x6D703461 then
           (let p4 = seek (getPos p3 + 8) p3;
                p5 = seek (getPos p4 + 8) p4;
                (w, p6) = readUI32BE p5;
                chans = (ucast (drop_bit 16 w) :: 16 word);
                p7 = p6 \<lparr> channels := ucast chans \<rparr>;
                p8 = seek (getPos p7 + 4) p7;
                (r, p9) = readUI32BE p8
            in (True, p9 \<lparr> sampleRate := drop_bit 16 r \<rparr>))
         else (False, p3))"

function stblLoop :: "u32 \<Rightarrow> nat \<Rightarrow> MP4Parser \<Rightarrow> nat \<times> MP4Parser" where
  "stblLoop stblEnd c4 p =
     (if getPos p < stblEnd \<and> c4 < 100 then
        (let (s4, p1) = readUI32BE p;
             (t4, p2) = readUI32BE p1
         in if s4 < 8 then (c4 + 1, p2)
            else
              (let nextStblChild = getPos p2 + s4 - 8;
                   p3 = (if t4 = 0x7374737A then p2 \<lparr> stszOffset := getPos p2 - 8 \<rparr>
                         else if t4 = 0x7374636F then p2 \<lparr> stcoOffset := getPos p2 - 8 \<rparr>
                         else if t4 = 0x73747363 then p2 \<lparr> stscOffset := getPos p2 - 8 \<rparr>
                         else if t4 = 0x73747364 then snd (parseStsd (s4 - 8) p2)
                         else p2)
               in stblLoop stblEnd (c4 + 1) (seek nextStblChild p3)))
      else (c4, p))"
  by pat_completeness auto
termination
  by (relation "measure (\<lambda>(e, c, p). 100 - c)") auto

function minfLoop :: "u32 \<Rightarrow> nat \<Rightarrow> MP4Parser \<Rightarrow> nat \<times> MP4Parser" where
  "minfLoop minfEnd c3 p =
     (if getPos p < minfEnd \<and> c3 < 100 then
        (let (s3, p1) = readUI32BE p;
             (t3, p2) = readUI32BE p1
         in if s3 < 8 then (c3 + 1, p2)
            else
              (let nextMinfChild = getPos p2 + s3 - 8;
                   p3 = (if t3 = 0x7374626C then
                           (let stblEnd = getPos p2 + s3 - 8 in snd (stblLoop stblEnd 0 p2))
                         else p2)
               in minfLoop minfEnd (c3 + 1) (seek nextMinfChild p3)))
      else (c3, p))"
  by pat_completeness auto
termination
  by (relation "measure (\<lambda>(e, c, p). 100 - c)") auto

function mdiaLoop :: "u32 \<Rightarrow> nat \<Rightarrow> bool \<Rightarrow> MP4Parser \<Rightarrow> nat \<times> bool \<times> MP4Parser" where
  "mdiaLoop mdiaEnd c2 isAudio p =
     (if getPos p < mdiaEnd \<and> c2 < 100 then
        (let (s2, p1) = readUI32BE p;
             (t2, p2) = readUI32BE p1
         in if s2 < 8 then (c2 + 1, isAudio, p2)
            else
              (let nextMdiaChild = getPos p2 + s2 - 8;
                   (isAudio', p3) =
                     (if t2 = 0x68646C72 then
                        (let p2a = seek (getPos p2 + 8) p2;
                             (subtype, p2b) = readUI32BE p2a
                         in (if subtype = 0x736F756E then True else isAudio, p2b))
                      else if t2 = 0x6D696E66 then
                        (let minfEnd = getPos p2 + s2 - 8
                         in (isAudio, snd (minfLoop minfEnd 0 p2)))
                      else (isAudio, p2))
               in mdiaLoop mdiaEnd (c2 + 1) isAudio' (seek nextMdiaChild p3)))
      else (c2, isAudio, p))"
  by pat_completeness auto
termination
  by (relation "measure (\<lambda>(e, c, a, p). 100 - c)") auto

function trakLoop :: "u32 \<Rightarrow> nat \<Rightarrow> bool \<Rightarrow> MP4Parser \<Rightarrow> nat \<times> bool \<times> MP4Parser" where
  "trakLoop endPos count isAudio p =
     (if getPos p < endPos \<and> count < 500 then
        (let (size, p1) = readUI32BE p;
             (type, p2) = readUI32BE p1
         in if size < 8 then (count + 1, isAudio, p2)
            else
              (let nextAtomPos = getPos p2 + size - 8;
                   (isAudio', p3) =
                     (if type = 0x6D646961 then
                        (let mdiaEnd = getPos p2 + size - 8
                         in snd (mdiaLoop mdiaEnd 0 isAudio p2))
                      else (isAudio, p2))
               in trakLoop endPos (count + 1) isAudio' (seek nextAtomPos p3)))
      else (count, isAudio, p))"
  by pat_completeness auto
termination
  by (relation "measure (\<lambda>(e, c, a, p). 500 - c)") auto

definition parseTrak :: "u32 \<Rightarrow> MP4Parser \<Rightarrow> bool \<times> MP4Parser" where
  "parseTrak atomSize p =
     (let startPos = getPos p;
          endPos = startPos + atomSize;
          p0 = p \<lparr> stszOffset := 0, stcoOffset := 0, stscOffset := 0 \<rparr>;
          (count, isAudio, p1) = trakLoop endPos 0 False p0
      in if isAudio \<and> stszOffset p1 \<noteq> 0 \<and> stcoOffset p1 \<noteq> 0 \<and> stscOffset p1 \<noteq> 0
         then (True, p1) else (False, p1))"

function moovLoop :: "u32 \<Rightarrow> nat \<Rightarrow> MP4Parser \<Rightarrow> nat \<times> bool \<times> MP4Parser" where
  "moovLoop endPos count p =
     (if getPos p < endPos \<and> count < 500 then
        (let (size, p1) = readUI32BE p;
             (type, p2) = readUI32BE p1
         in if size < 8 then (count + 1, False, p2)
            else
              (let nextAtomPos = getPos p2 + size - 8;
                   (found, p3) = (if type = 0x7472616B then parseTrak (size - 8) p2
                                  else (False, p2))
               in if found then (count + 1, True, p3)
                  else moovLoop endPos (count + 1) (seek nextAtomPos p3)))
      else (count, False, p))"
  by pat_completeness auto
termination
  by (relation "measure (\<lambda>(e, c, p). 500 - c)") auto

definition parseMoov :: "u32 \<Rightarrow> MP4Parser \<Rightarrow> bool \<times> MP4Parser" where
  "parseMoov atomSize p =
     (let startPos = getPos p;
          endPos = startPos + atomSize;
          (count, found, p1) = moovLoop endPos 0 p
      in (found, p1))"

function openLoop :: "u32 \<Rightarrow> u32 \<Rightarrow> nat \<Rightarrow> bool \<Rightarrow> MP4Parser \<Rightarrow> nat \<times> bool \<times> MP4Parser" where
  "openLoop fileSize pos atomCount moovFound p =
     (if pos < fileSize \<and> atomCount < 1000 then
        (let p1 = seek pos p;
             (atomSize, p2) = readUI32BE p1;
             (atomType, p3) = readUI32BE p2
         in if atomSize = 0 then (atomCount + 1, moovFound, p3)
            else
              (let (atomSize', p4) =
                     (if atomSize = 1 then
                        (let p3a = seek (pos + 8) p3;
                             (high, p3b) = readUI32BE p3a;
                             (low, p3c) = readUI32BE p3b
                         in (low, p3c))
                      else (atomSize, p3))
               in if atomSize' < 8 then (atomCount + 1, moovFound, p4)
                  else
                    (let (moovFound', p5) =
                           (if atomType = 0x6D6F6F76 then
                              (True, snd (parseMoov (atomSize' - 8) p4))
                            else if atomType = 0x6D646174 then
                              (moovFound, p4 \<lparr> mdatOffset := pos + 8 \<rparr>)
                            else (moovFound, p4));
                         pos' = pos + atomSize'
                     in if pos' > fileSize then (atomCount + 1, moovFound', p5)
                        else openLoop fileSize pos' (atomCount + 1) moovFound' p5)))
      else (atomCount, moovFound, p))"
  by pat_completeness auto
termination
  by (relation "measure (\<lambda>(fs, pos, c, m, p). 1000 - c)") auto

text \<open>
  \<open>open\<close>. The argument \<open>fo\<close> is what the library's own open call returned for the file
  name: \<open>None\<close> for a handle that tests false. The parser's fields are those of the object
  before the call; \<open>open\<close> assigns the handle and resets the fields the source resets.
\<close>

definition "open" :: "FsFile option \<Rightarrow> bool \<Rightarrow> MP4Parser \<Rightarrow> bool \<times> MP4Parser" where
  "open fo isFlash p =
     (case fo of
        None \<Rightarrow> (False, p \<lparr> activeFile := closed_file, usingFlash := isFlash \<rparr>)
      | Some f \<Rightarrow>
          (let p0 = p \<lparr> activeFile := f, usingFlash := isFlash,
                        stszOffset := 0, stcoOffset := 0, stscOffset := 0, mdatOffset := 0,
                        currentSample := 0, currentChunk := 1, samplesReadInChunk := 0 \<rparr>;
               fileSize = (of_nat (length (contents f)) :: u32);
               (atomCount, moovFound, p1) = openLoop fileSize 0 0 False p0
           in if moovFound \<and> stszOffset p1 \<noteq> 0 \<and> stcoOffset p1 \<noteq> 0 \<and> stscOffset p1 \<noteq> 0 then
                (let p2 = seek (stscOffset p1 + 12) p1;
                     p3 = seek (stscOffset p2 + 16) p2;
                     p4 = p3 \<lparr> currentChunk := 1 \<rparr>;
                     (firstChunk, p5) = readUI32BE p4;
                     (n, p6) = readUI32BE p5;
                     p7 = p6 \<lparr> samplesInCurrentChunk := n \<rparr>;
                     p8 = seek (stcoOffset p7 + 16) p7;
                     (off, p9) = readUI32BE p8
                 in (True, p9 \<lparr> currentOffset := off \<rparr>))
              else (False, p1)))"

text \<open>The object as the constructor leaves it. The constructor does not assign the
  chunk fields; they are given the value 0 here.\<close>

definition new_parser :: MP4Parser where
  "new_parser = \<lparr> activeFile = closed_file, usingFlash = False,
                   stszOffset = 0, stcoOffset = 0, stscOffset = 0, mdatOffset = 0,
                   sampleRate = 44100, channels = 2, currentSample = 0, totalSamples = 0,
                   currentChunk = 0, samplesInCurrentChunk = 0, samplesReadInChunk = 0,
                   currentOffset = 0 \<rparr>"

subsection \<open>Frame extraction\<close>

text \<open>The \<open>for\<close> loop over the sample-to-chunk runs in \<open>readNextFrame\<close>.\<close>

function stscLoop :: "u32 \<Rightarrow> u32 \<Rightarrow> MP4Parser \<Rightarrow> MP4Parser" where
  "stscLoop entryCount i p =
     (if i < entryCount then
        (let (firstChunk, p1) = readUI32BE p;
             (samplesPer, p2) = readUI32BE p1;
             (ident, p3) = readUI32BE p2
         in if firstChunk > currentChunk p3 then p3
            else stscLoop entryCount (i + 1) (p3 \<lparr> samplesInCurrentChunk := samplesPer \<rparr>))
      else p)"
  by pat_completeness auto
termination
proof (relation "measure (\<lambda>(n, i, p). unat n - unat i)")
  show "wf (measure (\<lambda>(n, i, p). unat n - unat i))" by simp
next
  fix entryCount i :: u32
  fix p x and xa :: u32 and y xb and xc :: u32 and ya xd and xe :: u32 and yb
  assume lt: "i < entryCount"
  have "unat entryCount < 2 ^ 32" using unsigned_less [of entryCount, where ?'a = nat] by simp
  moreover have "unat i < unat entryCount" using lt by (simp add: word_less_nat_alt)
  ultimately have "unat i + 1 < 2 ^ 32" by simp
  then have "unat (i + 1) = unat i + 1" by (simp add: unat_add_lem [THEN iffD1])
  moreover note \<open>unat i < unat entryCount\<close>
  ultimately
  show "((entryCount, i + 1, yb \<lparr> samplesInCurrentChunk := xc \<rparr>), entryCount, i, p)
        \<in> measure (\<lambda>(n, i, p). unat n - unat i)"
    by simp
qed

text \<open>The body of the branch taken at a chunk boundary
  (\<open>samplesReadInChunk >= samplesInCurrentChunk\<close>).\<close>

definition nextChunk :: "MP4Parser \<Rightarrow> MP4Parser" where
  "nextChunk p =
     (let p1 = p \<lparr> currentChunk := currentChunk p + 1 \<rparr>;
          p2 = p1 \<lparr> samplesReadInChunk := 0 \<rparr>;
          p3 = seek (stcoOffset p2 + 16 + ((currentChunk p2 - 1) * 4)) p2;
          (off, p4) = readUI32BE p3;
          p5 = p4 \<lparr> currentOffset := off \<rparr>;
          p6 = seek (stscOffset p5 + 12) p5;
          (entryCount, p7) = readUI32BE p6
      in stscLoop entryCount 0 p7)"

text \<open>
  \<open>readNextFrame\<close> returns the byte count, the bytes it wrote to the caller's buffer from
  its start (the header and, behind it, what the library delivered of the frame) and the
  new state. \<open>bufferSize\<close> is a \<open>size_t\<close>, 32 bits wide on the target; \<open>frameSize + 7\<close> is
  computed in \<open>uint32_t\<close>. The header arguments are converted to \<open>int\<close> as the call does.
\<close>

definition readNextFrame :: "u32 \<Rightarrow> MP4Parser \<Rightarrow> u32 \<times> u8 list \<times> MP4Parser" where
  "readNextFrame bufferSize p =
     (if stszOffset p = 0 then (0, [], p)
      else
        (let p1 = seek (stszOffset p + 12) p;
             (defaultSize, p2) = readUI32BE p1;
             (count, p3) = readUI32BE p2
         in if currentSample p3 \<ge> count then (0, [], p3)
            else
              (let (frameSize, p4) =
                     (if defaultSize = 0 then
                        readUI32BE (seek (stszOffset p3 + 20 + (currentSample p3 * 4)) p3)
                      else (defaultSize, p3))
               in if frameSize + 7 > bufferSize then (0, [], p4)
                  else
                    (let p5 = (if samplesReadInChunk p4 \<ge> samplesInCurrentChunk p4
                               then nextChunk p4 else p4);
                         p6 = seek (currentOffset p5) p5;
                         header = generateAdtsHeader (sint (frameSize + 7)) 2
                                    (sint (sampleRate p6)) (uint (channels p6));
                         (payload, p7) = read (unat frameSize) p6;
                         p8 = p7 \<lparr> currentOffset := currentOffset p7 + frameSize \<rparr>;
                         p9 = p8 \<lparr> currentSample := currentSample p8 + 1 \<rparr>;
                         p10 = p9 \<lparr> samplesReadInChunk := samplesReadInChunk p9 + 1 \<rparr>
                     in (frameSize + 7, header @ payload, p10)))))"

text \<open>The state after \<open>n\<close> successive calls of \<open>readNextFrame\<close>.\<close>

primrec after_calls :: "nat \<Rightarrow> u32 \<Rightarrow> MP4Parser \<Rightarrow> MP4Parser" where
  "after_calls 0 bufferSize p = p"
| "after_calls (Suc n) bufferSize p =
     snd (snd (readNextFrame bufferSize (after_calls n bufferSize p)))"

text \<open>The playback cursor.\<close>

definition cursor :: "MP4Parser \<Rightarrow> u32 \<times> u32 \<times> u32 \<times> u32 \<times> u32" where
  "cursor p = (currentSample p, currentChunk p, samplesReadInChunk p,
               samplesInCurrentChunk p, currentOffset p)"

text \<open>The loop equations are unfolded by hand where needed.\<close>

declare stblLoop.simps [simp del] minfLoop.simps [simp del] mdiaLoop.simps [simp del]
  trakLoop.simps [simp del] moovLoop.simps [simp del] openLoop.simps [simp del]
  stscLoop.simps [simp del]

subsection \<open>Table contents by position\<close>

text \<open>The 32-bit big-endian value that a read at byte position \<open>q\<close> of the bytes \<open>cs\<close>
  yields in \<open>readUI32BE\<close>.\<close>

definition u32_at :: "u8 list \<Rightarrow> nat \<Rightarrow> u32" where
  "u32_at cs q = (let bs = take 4 (drop q cs) in be32 (bs @ replicate (4 - length bs) 0))"

text \<open>The parser with its file handle moved to position \<open>q\<close>.\<close>

definition repos :: "nat \<Rightarrow> MP4Parser \<Rightarrow> MP4Parser" where
  "repos q p = p \<lparr> activeFile := (activeFile p) \<lparr> position := q \<rparr> \<rparr>"

text \<open>What \<open>readNextFrame\<close> reads from the sample-size table: the shared size, the sample
  count, and the size of the next frame.\<close>

definition stszDefaultSize :: "MP4Parser \<Rightarrow> u32" where
  "stszDefaultSize p = fst (readUI32BE (seek (stszOffset p + 12) p))"

definition stszCount :: "MP4Parser \<Rightarrow> u32" where
  "stszCount p = fst (readUI32BE (snd (readUI32BE (seek (stszOffset p + 12) p))))"

definition nextFrameSize :: "MP4Parser \<Rightarrow> u32" where
  "nextFrameSize p =
     (if stszDefaultSize p = 0
      then fst (readUI32BE (seek (stszOffset p + 20 + (currentSample p * 4)) p))
      else stszDefaultSize p)"

text \<open>The entry of the chunk-offset table that \<open>readNextFrame\<close> reads for chunk number
  \<open>chunk\<close> (1-based): 16 bytes past the start of the box, 4 bytes per entry.\<close>

definition stcoEntry :: "MP4Parser \<Rightarrow> u32 \<Rightarrow> u32" where
  "stcoEntry p chunk =
     fst (readUI32BE (seek (stcoOffset p + 16 + ((chunk - 1) * 4)) p))"

text \<open>The runs of the sample-to-chunk table, (first chunk, samples per chunk), in table
  order: the entry count at byte 12 of the box, then 12 bytes per run from byte 16.\<close>

definition stscRuns :: "MP4Parser \<Rightarrow> (u32 \<times> u32) list" where
  "stscRuns p =
     (let cs = contents (activeFile p); a = unat (stscOffset p)
      in map (\<lambda>i. (u32_at cs (a + 16 + 12 * i), u32_at cs (a + 20 + 12 * i)))
           [0 ..< unat (u32_at cs (a + 12))])"

text \<open>The run that applies to a chunk according to a run-length table: the last run
  whose first chunk is not beyond it; \<open>dflt\<close> when there is none.\<close>

definition run_for_chunk :: "u32 \<Rightarrow> u32 \<Rightarrow> (u32 \<times> u32) list \<Rightarrow> u32" where
  "run_for_chunk chunk dflt runs =
     (case filter (\<lambda>r. fst r \<le> chunk) runs of [] \<Rightarrow> dflt | r # rs \<Rightarrow> snd (last (r # rs)))"

subsection \<open>Example files\<close>

text \<open>A container with one audio track, 44100 Hz, two channels: six samples of 10
  bytes each in three chunks of two samples, at offsets 208, 228 and 248.\<close>

definition audio_container :: "u8 list" where
  "audio_container = [
     0x00, 0x00, 0x00, 0xC8, 0x6D, 0x6F, 0x6F, 0x76, 0x00, 0x00, 0x00, 0xC0, 0x74, 0x72, 0x61, 0x6B,
     0x00, 0x00, 0x00, 0xB8, 0x6D, 0x64, 0x69, 0x61, 0x00, 0x00, 0x00, 0x20, 0x68, 0x64, 0x6C, 0x72,
     0x00, 0x00, 0x00, 0x00, 0x00, 0x00, 0x00, 0x00, 0x73, 0x6F, 0x75, 0x6E, 0x00, 0x00, 0x00, 0x00,
     0x00, 0x00, 0x00, 0x00, 0x00, 0x00, 0x00, 0x00, 0x00, 0x00, 0x00, 0x90, 0x6D, 0x69, 0x6E, 0x66,
     0x00, 0x00, 0x00, 0x88, 0x73, 0x74, 0x62, 0x6C, 0x00, 0x00, 0x00, 0x34, 0x73, 0x74, 0x73, 0x64,
     0x00, 0x00, 0x00, 0x00, 0x00, 0x00, 0x00, 0x01, 0x00, 0x00, 0x00, 0x24, 0x6D, 0x70, 0x34, 0x61,
     0x00, 0x00, 0x00, 0x00, 0x00, 0x00, 0x00, 0x01, 0x00, 0x00, 0x00, 0x00, 0x00, 0x00, 0x00, 0x00,
     0x00, 0x02, 0x00, 0x10, 0x00, 0x00, 0x00, 0x00, 0xAC, 0x44, 0x00, 0x00, 0x00, 0x00, 0x00, 0x14,
     0x73, 0x74, 0x73, 0x7A, 0x00, 0x00, 0x00, 0x00, 0x00, 0x00, 0x00, 0x0A, 0x00, 0x00, 0x00, 0x06,
     0x00, 0x00, 0x00, 0x1C, 0x73, 0x74, 0x73, 0x63, 0x00, 0x00, 0x00, 0x00, 0x00, 0x00, 0x00, 0x01,
     0x00, 0x00, 0x00, 0x01, 0x00, 0x00, 0x00, 0x02, 0x00, 0x00, 0x00, 0x01, 0x00, 0x00, 0x00, 0x1C,
     0x73, 0x74, 0x63, 0x6F, 0x00, 0x00, 0x00, 0x00, 0x00, 0x00, 0x00, 0x03, 0x00, 0x00, 0x00, 0xD0,
     0x00, 0x00, 0x00, 0xE4, 0x00, 0x00, 0x00, 0xF8, 0x00, 0x00, 0x00, 0x44, 0x6D, 0x64, 0x61, 0x74,
     0x01, 0x02, 0x03, 0x04, 0x05, 0x06, 0x07, 0x08, 0x09, 0x0A, 0x0B, 0x0C, 0x0D, 0x0E, 0x0F, 0x10,
     0x11, 0x12, 0x13, 0x14, 0x15, 0x16, 0x17, 0x18, 0x19, 0x1A, 0x1B, 0x1C, 0x1D, 0x1E, 0x1F, 0x20,
     0x21, 0x22, 0x23, 0x24, 0x25, 0x26, 0x27, 0x28, 0x29, 0x2A, 0x2B, 0x2C, 0x2D, 0x2E, 0x2F, 0x30,
     0x31, 0x32, 0x33, 0x34, 0x35, 0x36, 0x37, 0x38, 0x39, 0x3A, 0x3B, 0x3C ]"

text \<open>A container whose only track has the handler subtype \<open>vide\<close>, with a sample-size,
  a sample-to-chunk and a chunk-offset table.\<close>

definition video_container :: "u8 list" where
  "video_container = [
     0x00, 0x00, 0x00, 0x8C, 0x6D, 0x6F, 0x6F, 0x76, 0x00, 0x00, 0x00, 0x84, 0x74, 0x72, 0x61, 0x6B,
     0x00, 0x00, 0x00, 0x7C, 0x6D, 0x64, 0x69, 0x61, 0x00, 0x00, 0x00, 0x20, 0x68, 0x64, 0x6C, 0x72,
     0x00, 0x00, 0x00, 0x00, 0x00, 0x00, 0x00, 0x00, 0x76, 0x69, 0x64, 0x65, 0x00, 0x00, 0x00, 0x00,
     0x00, 0x00, 0x00, 0x00, 0x00, 0x00, 0x00, 0x00, 0x00, 0x00, 0x00, 0x54, 0x6D, 0x69, 0x6E, 0x66,
     0x00, 0x00, 0x00, 0x4C, 0x73, 0x74, 0x62, 0x6C, 0x00, 0x00, 0x00, 0x14, 0x73, 0x74, 0x73, 0x7A,
     0x00, 0x00, 0x00, 0x00, 0x00, 0x00, 0x00, 0x04, 0x00, 0x00, 0x00, 0x01, 0x00, 0x00, 0x00, 0x1C,
     0x73, 0x74, 0x73, 0x63, 0x00, 0x00, 0x00, 0x00, 0x00, 0x00, 0x00, 0x01, 0x00, 0x00, 0x00, 0x01,
     0x00, 0x00, 0x00, 0x01, 0x00, 0x00, 0x00, 0x01, 0x00, 0x00, 0x00, 0x14, 0x73, 0x74, 0x63, 0x6F,
     0x00, 0x00, 0x00, 0x00, 0x00, 0x00, 0x00, 0x01, 0x00, 0x00, 0x00, 0x94, 0x00, 0x00, 0x00, 0x0C,
     0x6D, 0x64, 0x61, 0x74, 0x01, 0x02, 0x03, 0x04 ]"

text \<open>A container with one audio track whose single sample is declared with 10 bytes at
  offset 200, in a file that ends after 204 bytes.\<close>

definition short_container :: "u8 list" where
  "short_container = [
     0x00, 0x00, 0x00, 0xC0, 0x6D, 0x6F, 0x6F, 0x76, 0x00, 0x00, 0x00, 0xB8, 0x74, 0x72, 0x61, 0x6B,
     0x00, 0x00, 0x00, 0xB0, 0x6D, 0x64, 0x69, 0x61, 0x00, 0x00, 0x00, 0x20, 0x68, 0x64, 0x6C, 0x72,
     0x00, 0x00, 0x00, 0x00, 0x00, 0x00, 0x00, 0x00, 0x73, 0x6F, 0x75, 0x6E, 0x00, 0x00, 0x00, 0x00,
     0x00, 0x00, 0x00, 0x00, 0x00, 0x00, 0x00, 0x00, 0x00, 0x00, 0x00, 0x88, 0x6D, 0x69, 0x6E, 0x66,
     0x00, 0x00, 0x00, 0x80, 0x73, 0x74, 0x62, 0x6C, 0x00, 0x00, 0x00, 0x34, 0x73, 0x74, 0x73, 0x64,
     0x00, 0x00, 0x00, 0x00, 0x00, 0x00, 0x00, 0x01, 0x00, 0x00, 0x00, 0x24, 0x6D, 0x70, 0x34, 0x61,
     0x00, 0x00, 0x00, 0x00, 0x00, 0x00, 0x00, 0x01, 0x00, 0x00, 0x00, 0x00, 0x00, 0x00, 0x00, 0x00,
     0x00, 0x02, 0x00, 0x10, 0x00, 0x00, 0x00, 0x00, 0xAC, 0x44, 0x00, 0x00, 0x00, 0x00, 0x00, 0x14,
     0x73, 0x74, 0x73, 0x7A, 0x00, 0x00, 0x00, 0x00, 0x00, 0x00, 0x00, 0x0A, 0x00, 0x00, 0x00, 0x01,
     0x00, 0x00, 0x00, 0x1C, 0x73, 0x74, 0x73, 0x63, 0x00, 0x00, 0x00, 0x00, 0x00, 0x00, 0x00, 0x01,
     0x00, 0x00, 0x00, 0x01, 0x00, 0x00, 0x00, 0x01, 0x00, 0x00, 0x00, 0x01, 0x00, 0x00, 0x00, 0x14,
     0x73, 0x74, 0x63, 0x6F, 0x00, 0x00, 0x00, 0x00, 0x00, 0x00, 0x00, 0x01, 0x00, 0x00, 0x00, 0xC8,
     0x00, 0x00, 0x00, 0x0C, 0x6D, 0x64, 0x61, 0x74, 0x01, 0x02, 0x03, 0x04 ]"

text \<open>A container with one audio track of six samples of 10 bytes each in three chunks
  that are neither adjacent nor in file order (chunk 1 at offset 252, chunk 2 at 232,
  chunk 3 at 282), and a sample-to-chunk table of three runs with ascending first chunks:
  2 samples per chunk from chunk 1, 1 from chunk 2, 3 from chunk 3.\<close>

definition stepped_container :: "u8 list" where
  "stepped_container =
   [ 0x00, 0x00, 0x00, 0xE0, 0x6D, 0x6F, 0x6F, 0x76, 0x00, 0x00, 0x00, 0xD8, 0x74, 0x72, 0x61, 0x6B,
     0x00, 0x00, 0x00, 0xD0, 0x6D, 0x64, 0x69, 0x61, 0x00, 0x00, 0x00, 0x20, 0x68, 0x64, 0x6C, 0x72,
     0x00, 0x00, 0x00, 0x00, 0x00, 0x00, 0x00, 0x00, 0x73, 0x6F, 0x75, 0x6E, 0x00, 0x00, 0x00, 0x00,
     0x00, 0x00, 0x00, 0x00, 0x00, 0x00, 0x00, 0x00, 0x00, 0x00, 0x00, 0xA8, 0x6D, 0x69, 0x6E, 0x66,
     0x00, 0x00, 0x00, 0xA0, 0x73, 0x74, 0x62, 0x6C, 0x00, 0x00, 0x00, 0x34, 0x73, 0x74, 0x73, 0x64,
     0x00, 0x00, 0x00, 0x00, 0x00, 0x00, 0x00, 0x01, 0x00, 0x00, 0x00, 0x24, 0x6D, 0x70, 0x34, 0x61,
     0x00, 0x00, 0x00, 0x00, 0x00, 0x00, 0x00, 0x01, 0x00, 0x00, 0x00, 0x00, 0x00, 0x00, 0x00, 0x00,
     0x00, 0x02, 0x00, 0x10, 0x00, 0x00, 0x00, 0x00, 0xAC, 0x44, 0x00, 0x00, 0x00, 0x00, 0x00, 0x14,
     0x73, 0x74, 0x73, 0x7A, 0x00, 0x00, 0x00, 0x00, 0x00, 0x00, 0x00, 0x0A, 0x00, 0x00, 0x00, 0x06,
     0x00, 0x00, 0x00, 0x34, 0x73, 0x74, 0x73, 0x63, 0x00, 0x00, 0x00, 0x00, 0x00, 0x00, 0x00, 0x03,
     0x00, 0x00, 0x00, 0x01, 0x00, 0x00, 0x00, 0x02, 0x00, 0x00, 0x00, 0x01, 0x00, 0x00, 0x00, 0x02,
     0x00, 0x00, 0x00, 0x01, 0x00, 0x00, 0x00, 0x01, 0x00, 0x00, 0x00, 0x03, 0x00, 0x00, 0x00, 0x03,
     0x00, 0x00, 0x00, 0x01, 0x00, 0x00, 0x00, 0x1C, 0x73, 0x74, 0x63, 0x6F, 0x00, 0x00, 0x00, 0x00,
     0x00, 0x00, 0x00, 0x03, 0x00, 0x00, 0x00, 0xFC, 0x00, 0x00, 0x00, 0xE8, 0x00, 0x00, 0x01, 0x1A,
     0x00, 0x00, 0x00, 0x58, 0x6D, 0x64, 0x61, 0x74, 0x01, 0x02, 0x03, 0x04, 0x05, 0x06, 0x07, 0x08,
     0x09, 0x0A, 0x0B, 0x0C, 0x0D, 0x0E, 0x0F, 0x10, 0x11, 0x12, 0x13, 0x14, 0x15, 0x16, 0x17, 0x18,
     0x19, 0x1A, 0x1B, 0x1C, 0x1D, 0x1E, 0x1F, 0x20, 0x21, 0x22, 0x23, 0x24, 0x25, 0x26, 0x27, 0x28,
     0x29, 0x2A, 0x2B, 0x2C, 0x2D, 0x2E, 0x2F, 0x30, 0x31, 0x32, 0x33, 0x34, 0x35, 0x36, 0x37, 0x38,
     0x39, 0x3A, 0x3B, 0x3C, 0x3D, 0x3E, 0x3F, 0x40, 0x41, 0x42, 0x43, 0x44, 0x45, 0x46, 0x47, 0x48,
     0x49, 0x4A, 0x4B, 0x4C, 0x4D, 0x4E, 0x4F, 0x50 ]"

text \<open>The same container with the runs of the sample-to-chunk table out of order:
  2 samples per chunk from chunk 1, 8 from chunk 9, 1 from chunk 2.\<close>

definition jumbled_container :: "u8 list" where
  "jumbled_container =
   [ 0x00, 0x00, 0x00, 0xE0, 0x6D, 0x6F, 0x6F, 0x76, 0x00, 0x00, 0x00, 0xD8, 0x74, 0x72, 0x61, 0x6B,
     0x00, 0x00, 0x00, 0xD0, 0x6D, 0x64, 0x69, 0x61, 0x00, 0x00, 0x00, 0x20, 0x68, 0x64, 0x6C, 0x72,
     0x00, 0x00, 0x00, 0x00, 0x00, 0x00, 0x00, 0x00, 0x73, 0x6F, 0x75, 0x6E, 0x00, 0x00, 0x00, 0x00,
     0x00, 0x00, 0x00, 0x00, 0x00, 0x00, 0x00, 0x00, 0x00, 0x00, 0x00, 0xA8, 0x6D, 0x69, 0x6E, 0x66,
     0x00, 0x00, 0x00, 0xA0, 0x73, 0x74, 0x62, 0x6C, 0x00, 0x00, 0x00, 0x34, 0x73, 0x74, 0x73, 0x64,
     0x00, 0x00, 0x00, 0x00, 0x00, 0x00, 0x00, 0x01, 0x00, 0x00, 0x00, 0x24, 0x6D, 0x70, 0x34, 0x61,
     0x00, 0x00, 0x00, 0x00, 0x00, 0x00, 0x00, 0x01, 0x00, 0x00, 0x00, 0x00, 0x00, 0x00, 0x00, 0x00,
     0x00, 0x02, 0x00, 0x10, 0x00, 0x00, 0x00, 0x00, 0xAC, 0x44, 0x00, 0x00, 0x00, 0x00, 0x00, 0x14,
     0x73, 0x74, 0x73, 0x7A, 0x00, 0x00, 0x00, 0x00, 0x00, 0x00, 0x00, 0x0A, 0x00, 0x00, 0x00, 0x06,
     0x00, 0x00, 0x00, 0x34, 0x73, 0x74, 0x73, 0x63, 0x00, 0x00, 0x00, 0x00, 0x00, 0x00, 0x00, 0x03,
     0x00, 0x00, 0x00, 0x01, 0x00, 0x00, 0x00, 0x02, 0x00, 0x00, 0x00, 0x01, 0x00, 0x00, 0x00, 0x09,
     0x00, 0x00, 0x00, 0x08, 0x00, 0x00, 0x00, 0x01, 0x00, 0x00, 0x00, 0x02, 0x00, 0x00, 0x00, 0x01,
     0x00, 0x00, 0x00, 0x01, 0x00, 0x00, 0x00, 0x1C, 0x73, 0x74, 0x63, 0x6F, 0x00, 0x00, 0x00, 0x00,
     0x00, 0x00, 0x00, 0x03, 0x00, 0x00, 0x00, 0xFC, 0x00, 0x00, 0x00, 0xE8, 0x00, 0x00, 0x01, 0x1A,
     0x00, 0x00, 0x00, 0x58, 0x6D, 0x64, 0x61, 0x74, 0x01, 0x02, 0x03, 0x04, 0x05, 0x06, 0x07, 0x08,
     0x09, 0x0A, 0x0B, 0x0C, 0x0D, 0x0E, 0x0F, 0x10, 0x11, 0x12, 0x13, 0x14, 0x15, 0x16, 0x17, 0x18,
     0x19, 0x1A, 0x1B, 0x1C, 0x1D, 0x1E, 0x1F, 0x20, 0x21, 0x22, 0x23, 0x24, 0x25, 0x26, 0x27, 0x28,
     0x29, 0x2A, 0x2B, 0x2C, 0x2D, 0x2E, 0x2F, 0x30, 0x31, 0x32, 0x33, 0x34, 0x35, 0x36, 0x37, 0x38,
     0x39, 0x3A, 0x3B, 0x3C, 0x3D, 0x3E, 0x3F, 0x40, 0x41, 0x42, 0x43, 0x44, 0x45, 0x46, 0x47, 0x48,
     0x49, 0x4A, 0x4B, 0x4C, 0x4D, 0x4E, 0x4F, 0x50 ]"

definition opened :: "u8 list \<Rightarrow> MP4Parser" where
  "opened cs = snd (open (Some \<lparr> contents = cs, position = 0 \<rparr>) False new_parser)"

text \<open>A parser state on the bytes \<open>cs\<close> with the file position \<open>q\<close>, the four table
  offsets \<open>tabs\<close> and the cursor \<open>cur\<close>; track parameters as the constructor sets them.\<close>

definition parser_on ::
  "u8 list \<Rightarrow> nat \<Rightarrow> u32 \<times> u32 \<times> u32 \<times> u32 \<Rightarrow> u32 \<times> u32 \<times> u32 \<times> u32 \<times> u32 \<Rightarrow> MP4Parser" where
  "parser_on cs q tabs cur =
     (case tabs of (stsz, stco, stsc, mdat) \<Rightarrow>
      case cur of (sample, chunk, readInChunk, inChunk, off) \<Rightarrow>
        \<lparr> activeFile = \<lparr> contents = cs, position = q \<rparr>, usingFlash = False,
          stszOffset = stsz, stcoOffset = stco, stscOffset = stsc, mdatOffset = mdat,
          sampleRate = 44100, channels = 2, currentSample = sample, totalSamples = 0,
          currentChunk = chunk, samplesInCurrentChunk = inChunk,
          samplesReadInChunk = readInChunk, currentOffset = off \<rparr>)"

subsection \<open>A track with one shared sample size\<close>

text \<open>
  The tables of the file the parser \<open>p\<close> has open, read at the offsets \<open>open\<close> recorded:
  the file is below 4 GiB; the sample-size table lies in the file and stores the shared
  size \<open>S\<close> (not 0, which would mean per-sample sizes) and the sample count \<open>n\<close>; the
  sample-to-chunk table lies in the file and has the single run (first chunk 1, \<open>K\<close>
  samples per chunk) with \<open>K\<close> not 0; the chunk-offset table lies in the file and its
  entries are \<open>Os\<close>; and the chunks hold all \<open>n\<close> samples.
\<close>

definition uniform_track :: "MP4Parser \<Rightarrow> u32 \<Rightarrow> u32 \<Rightarrow> u32 \<Rightarrow> u32 list \<Rightarrow> bool" where
  "uniform_track p S n K Os =
     (let cs = contents (activeFile p)
      in length cs < 2 ^ 32
         \<and> unat (stszOffset p) + 20 \<le> length cs
         \<and> u32_at cs (unat (stszOffset p) + 12) = S \<and> S \<noteq> 0
         \<and> u32_at cs (unat (stszOffset p) + 16) = n
         \<and> unat (stscOffset p) + 28 \<le> length cs
         \<and> u32_at cs (unat (stscOffset p) + 12) = 1
         \<and> u32_at cs (unat (stscOffset p) + 16) = 1
         \<and> u32_at cs (unat (stscOffset p) + 20) = K \<and> K \<noteq> 0
         \<and> unat (stcoOffset p) + 16 + 4 * length Os \<le> length cs
         \<and> map (\<lambda>j. u32_at cs (unat (stcoOffset p) + 16 + 4 * j)) [0 ..< length Os] = Os
         \<and> unat n \<le> unat K * length Os)"

text \<open>Two parser states with the same file contents, table offsets and track
  parameters.\<close>

definition same_tables :: "MP4Parser \<Rightarrow> MP4Parser \<Rightarrow> bool" where
  "same_tables p p' =
     (contents (activeFile p') = contents (activeFile p)
      \<and> stszOffset p' = stszOffset p \<and> stcoOffset p' = stcoOffset p
      \<and> stscOffset p' = stscOffset p
      \<and> sampleRate p' = sampleRate p \<and> channels p' = channels p)"

text \<open>The cursor before the call that yields sample \<open>i\<close> (0-based) of such a track:
  \<open>m\<close> samples of chunk \<open>j\<close> (0-based) have been read.\<close>

definition at_sample :: "MP4Parser \<Rightarrow> u32 \<Rightarrow> u32 \<Rightarrow> nat \<Rightarrow> bool" where
  "at_sample p S K i =
     (\<exists>j m. i = j * unat K + m \<and> m \<le> unat K \<and> (m = 0 \<longrightarrow> i = 0)
        \<and> currentSample p = of_nat i
        \<and> currentChunk p = of_nat j + 1
        \<and> samplesReadInChunk p = of_nat m
        \<and> samplesInCurrentChunk p = K
        \<and> currentOffset p
             = u32_at (contents (activeFile p)) (unat (stcoOffset p) + 16 + 4 * j)
               + of_nat m * S)"

subsection \<open>Auxiliary notions for the proofs\<close>

text \<open>The file position after a read of \<open>len\<close> bytes at position \<open>q\<close>.\<close>

definition past :: "u8 list \<Rightarrow> nat \<Rightarrow> nat \<Rightarrow> nat" where
  "past cs len q = q + length (take len (drop q cs))"

text \<open>Two parser states that differ at most in the file position.\<close>

definition moved :: "MP4Parser \<Rightarrow> MP4Parser \<Rightarrow> bool" where
  "moved p p' = (\<exists>q. p' = repos q p)"

text \<open>The state in which \<open>readNextFrame\<close> reads the frame: after the chunk-boundary
  branch, if it is taken.\<close>

definition chunkStep :: "MP4Parser \<Rightarrow> MP4Parser" where
  "chunkStep p = (if samplesReadInChunk p \<ge> samplesInCurrentChunk p then nextChunk p else p)"

text \<open>The file position \<open>readNextFrame\<close> leaves behind when it returns 0 after
  consulting the sample-size table.\<close>

definition rejectPos :: "MP4Parser \<Rightarrow> nat" where
  "rejectPos p =
     (let cs = contents (activeFile p);
          q3 = past cs 4 (past cs 4 (unat (stszOffset p + 12)))
      in if stszCount p \<le> currentSample p then q3
         else if stszDefaultSize p = 0 then past cs 4 (unat (stszOffset p + 20 + currentSample p * 4))
         else q3)"

text \<open>The size field of the box header at the current file position, and the state
  after the two words of the header have been read.\<close>

definition boxSize :: "MP4Parser \<Rightarrow> u32" where
  "boxSize p = fst (readUI32BE p)"

definition afterHeader :: "MP4Parser \<Rightarrow> MP4Parser" where
  "afterHeader p = snd (readUI32BE (snd (readUI32BE p)))"

text \<open>The scan of \<open>stscLoop\<close> over a list of runs: it stops at the first run that starts
  beyond the chunk and otherwise takes over the run's samples-per-chunk value.\<close>

fun stsc_scan :: "u32 \<Rightarrow> u32 \<Rightarrow> (u32 \<times> u32) list \<Rightarrow> u32" where
  "stsc_scan chunk v [] = v"
| "stsc_scan chunk v ((firstChunk, samplesPer) # rs) =
     (if firstChunk > chunk then v else stsc_scan chunk samplesPer rs)"

text \<open>What the box scan leaves alone: the bytes of the file and the three cursor fields
  that \<open>open\<close> resets before the scan.\<close>

definition scan_keeps :: "MP4Parser \<Rightarrow> MP4Parser \<Rightarrow> bool" where
  "scan_keeps p p' =
     (contents (activeFile p') = contents (activeFile p)
      \<and> currentSample p' = currentSample p
      \<and> currentChunk p' = currentChunk p
      \<and> samplesReadInChunk p' = samplesReadInChunk p)"



section \<open>Properties of the circular sample buffer\<close>

lemma and_pow2_mask: "(x::int) AND (2 ^ k - 1) = x mod 2 ^ k"
  by (simp flip: mask_eq_exp_minus_1 take_bit_eq_mask add: take_bit_eq_mod)

lemma availableForRead_pow2:
  "buffer rb = Some xs \<Longrightarrow>
   availableForRead (pow2_config k) rb = (writePos rb - readPos rb) mod 2 ^ k"
  by (simp add: availableForRead_def pow2_config_def and_pow2_mask)

lemma push_pow2:
  "buffer rb = Some xs \<Longrightarrow>
   push (pow2_config k) v rb =
     (if (writePos rb + 1) mod 2 ^ k = readPos rb then (False, rb)
      else (True, rb \<lparr> buffer := Some (xs[nat (writePos rb) := v]),
                       writePos := (writePos rb + 1) mod 2 ^ k \<rparr>))"
  by (simp add: push_def pow2_config_def and_pow2_mask Let_def)

lemma pop_pow2:
  "buffer rb = Some xs \<Longrightarrow>
   pop (pow2_config k) rb =
     (xs ! nat (readPos rb), rb \<lparr> readPos := (readPos rb + 1) mod 2 ^ k \<rparr>)"
  by (simp add: pop_def pow2_config_def and_pow2_mask)

lemma rb_invD:
  "rb_inv k rb \<Longrightarrow> \<exists>xs. buffer rb = Some xs \<and> length xs = 2 ^ k \<and> 0 \<le> readPos rb
      \<and> readPos rb < 2 ^ k \<and> 0 \<le> writePos rb \<and> writePos rb < 2 ^ k"
  by (auto simp: rb_inv_def split: option.splits)

subsection \<open>The two levels add up\<close>

lemma level_sum_any:
  "buffer rb \<noteq> None \<Longrightarrow> availableForRead c rb + availableForWrite c rb = streamBufferSize c - 1"
  by (auto simp: availableForRead_def availableForWrite_def Let_def split: option.splits)

lemma rb_step_buffer: "buffer rb \<noteq> None \<Longrightarrow> buffer (rb_step c rb x) \<noteq> None"
  by (cases x) (auto simp: push_def pop_def Let_def split: option.splits)

lemma rb_run_buffer: "buffer rb \<noteq> None \<Longrightarrow> buffer (rb_run c ops rb) \<noteq> None"
proof (induction ops arbitrary: rb)
  case Nil
  then show ?case by (simp add: rb_run_def)
next
  case (Cons a ops)
  have "buffer (rb_step c rb a) \<noteq> None" by (rule rb_step_buffer [OF Cons.prems])
  from Cons.IH [OF this] show ?case by (simp add: rb_run_def)
qed

text \<open>
  C5. For a buffer of capacity \<open>N = 2^k\<close> whose backing array is allocated, after any
  sequence of \<open>push\<close> and \<open>pop\<close> operations the number of samples available for reading
  and the number of free places available for writing add up to \<open>N - 1\<close>.
\<close>

theorem ring_level_sum:
  "buffer rb \<noteq> None \<Longrightarrow>
   availableForRead (pow2_config k) (rb_run (pow2_config k) ops rb)
     + availableForWrite (pow2_config k) (rb_run (pow2_config k) ops rb) = 2 ^ k - 1"
proof -
  assume "buffer rb \<noteq> None"
  then have "buffer (rb_run (pow2_config k) ops rb) \<noteq> None" by (rule rb_run_buffer)
  then show ?thesis
    using level_sum_any [of "rb_run (pow2_config k) ops rb" "pow2_config k"]
    by (simp add: pow2_config_def)
qed

theorem ring_level_sum_witness:
  "buffer rb_example \<noteq> None \<and>
   availableForRead (pow2_config 2) (rb_run (pow2_config 2) [Push 5, Push 6, Pop] rb_example)
     + availableForWrite (pow2_config 2) (rb_run (pow2_config 2) [Push 5, Push 6, Pop] rb_example) = 3"
  using ring_level_sum [of rb_example 2 "[Push 5, Push 6, Pop]"]
  by (simp add: rb_example_def)

subsection \<open>A full buffer rejects a push\<close>

lemma full_iff_level:
  fixes r w :: int
  assumes "0 \<le> r" "r < 2 ^ k"
  shows "((w + 1) mod 2 ^ k = r) = ((w - r) mod 2 ^ k = 2 ^ k - 1)"
proof
  assume h: "(w + 1) mod 2 ^ k = r"
  have "(w - r) mod 2 ^ k = (w - (w + 1) mod 2 ^ k) mod 2 ^ k" using h by simp
  also have "\<dots> = (w - (w + 1)) mod 2 ^ k" by (simp add: mod_diff_right_eq)
  also have "\<dots> = (- 1) mod 2 ^ k" by simp
  also have "\<dots> = 2 ^ k - 1" by (simp add: zmod_minus1)
  finally show "(w - r) mod 2 ^ k = 2 ^ k - 1" .
next
  assume h: "(w - r) mod 2 ^ k = 2 ^ k - 1"
  have "(w + 1 - r) mod 2 ^ k = ((w - r) mod 2 ^ k + 1) mod 2 ^ k"
    using mod_add_left_eq [of "w - r" "2 ^ k" 1, symmetric] by (simp add: algebra_simps)
  also have "\<dots> = 0" using h by simp
  finally have "(w + 1 - r) mod 2 ^ k = 0" .
  then have "(w + 1) mod 2 ^ k = r mod 2 ^ k"
    by (metis mod_eq_dvd_iff mod_0_imp_dvd)
  with assms show "(w + 1) mod 2 ^ k = r" by simp
qed

lemma push_ok_step:
  assumes inv: "rb_inv k rb"
    and lvl: "availableForRead (pow2_config k) rb < 2 ^ k - 1"
  shows "fst (push (pow2_config k) v rb) \<and> rb_inv k (snd (push (pow2_config k) v rb))
     \<and> readPos (snd (push (pow2_config k) v rb)) = readPos rb
     \<and> availableForRead (pow2_config k) (snd (push (pow2_config k) v rb))
         = availableForRead (pow2_config k) rb + 1"
proof -
  from rb_invD [OF inv] obtain xs where b: "buffer rb = Some xs" and len: "length xs = 2 ^ k"
    and r: "0 \<le> readPos rb" "readPos rb < 2 ^ k" and w: "0 \<le> writePos rb" "writePos rb < 2 ^ k"
    by blast
  let ?L = "(writePos rb - readPos rb) mod 2 ^ k"
  have L: "?L < 2 ^ k - 1" using lvl b by (simp add: availableForRead_pow2)
  have nf: "(writePos rb + 1) mod 2 ^ k \<noteq> readPos rb"
    using full_iff_level [OF r, of "writePos rb"] L by simp
  have L0: "0 \<le> ?L" by simp
  have "((writePos rb + 1) mod 2 ^ k - readPos rb) mod 2 ^ k
          = (writePos rb + 1 - readPos rb) mod 2 ^ k"
    by (simp add: mod_diff_left_eq)
  also have "\<dots> = (?L + 1) mod 2 ^ k"
    using mod_add_left_eq [of "writePos rb - readPos rb" "2 ^ k" 1, symmetric]
    by (simp add: algebra_simps)
  also have "\<dots> = ?L + 1" using L L0 by simp
  finally have lv': "((writePos rb + 1) mod 2 ^ k - readPos rb) mod 2 ^ k = ?L + 1" .
  let ?rb' = "rb \<lparr> buffer := Some (xs[nat (writePos rb) := v]),
                       writePos := (writePos rb + 1) mod 2 ^ k \<rparr>"
  have p: "push (pow2_config k) v rb = (True, ?rb')"
    using nf by (simp add: push_pow2 [OF b])
  have b': "buffer ?rb' = Some (xs[nat (writePos rb) := v])" by simp
  have "rb_inv k ?rb'" using len r by (simp add: rb_inv_def)
  moreover have "availableForRead (pow2_config k) ?rb' = availableForRead (pow2_config k) rb + 1"
    using lv' by (simp add: availableForRead_pow2 [OF b'] availableForRead_pow2 [OF b])
  ultimately show ?thesis by (simp add: p)
qed

lemma push_all_ok:
  "rb_inv k rb \<Longrightarrow> availableForRead (pow2_config k) rb + int (length vs) \<le> 2 ^ k - 1 \<Longrightarrow>
   (\<forall>ok \<in> set (fst (push_all (pow2_config k) vs rb)). ok)
   \<and> length (fst (push_all (pow2_config k) vs rb)) = length vs
   \<and> rb_inv k (snd (push_all (pow2_config k) vs rb))
   \<and> readPos (snd (push_all (pow2_config k) vs rb)) = readPos rb
   \<and> availableForRead (pow2_config k) (snd (push_all (pow2_config k) vs rb))
       = availableForRead (pow2_config k) rb + int (length vs)"
proof (induction vs arbitrary: rb)
  case Nil
  then show ?case by simp
next
  case (Cons v vs)
  let ?c = "pow2_config k"
  have lt: "availableForRead ?c rb < 2 ^ k - 1" using Cons.prems(2) by simp
  note st = push_ok_step [OF Cons.prems(1) lt, of v]
  have "availableForRead ?c (snd (push ?c v rb)) + int (length vs) \<le> 2 ^ k - 1"
    using st Cons.prems(2) by simp
  from Cons.IH [OF _ this] st show ?case
    by (auto simp: split_beta)
qed

lemma push_full_noop:
  assumes inv: "rb_inv k rb" and lvl: "availableForRead (pow2_config k) rb = 2 ^ k - 1"
  shows "(writePos rb + 1) mod 2 ^ k = readPos rb \<and> push (pow2_config k) v rb = (False, rb)"
proof -
  from rb_invD [OF inv] obtain xs where b: "buffer rb = Some xs"
    and r: "0 \<le> readPos rb" "readPos rb < 2 ^ k" by blast
  have "(writePos rb + 1) mod 2 ^ k = readPos rb"
    using full_iff_level [OF r, of "writePos rb"] lvl b by (simp add: availableForRead_pow2)
  then show ?thesis by (simp add: push_pow2 [OF b])
qed

text \<open>
  C6. In a full buffer (advancing \<open>writePos\<close> by one modulo the capacity would reach
  \<open>readPos\<close>) a push returns false and leaves the whole state as it was: array, \<open>readPos\<close>
  and \<open>writePos\<close>, hence also \<open>availableForRead\<close>. In particular, \<open>N - 1\<close> pushes into an
  empty buffer of capacity \<open>N = 2^k\<close> all succeed, the buffer is then full
  (\<open>availableForRead\<close> is \<open>N - 1\<close>) and the next push is rejected without any change.
\<close>

theorem push_on_full_is_noop:
  assumes "rb_inv k rb"
  shows "((writePos rb + 1) mod 2 ^ k = readPos rb \<longrightarrow> push (pow2_config k) v rb = (False, rb))
       \<and> (readPos rb = writePos rb \<longrightarrow> int (length vs) = 2 ^ k - 1 \<longrightarrow>
            (\<forall>ok \<in> set (fst (push_all (pow2_config k) vs rb)). ok)
          \<and> length (fst (push_all (pow2_config k) vs rb)) = length vs
          \<and> (writePos (snd (push_all (pow2_config k) vs rb)) + 1) mod 2 ^ k
              = readPos (snd (push_all (pow2_config k) vs rb))
          \<and> availableForRead (pow2_config k) (snd (push_all (pow2_config k) vs rb)) = 2 ^ k - 1
          \<and> push (pow2_config k) v (snd (push_all (pow2_config k) vs rb))
              = (False, snd (push_all (pow2_config k) vs rb)))"
proof (intro conjI impI)
  from rb_invD [OF assms] obtain xs where b: "buffer rb = Some xs" by blast
  {
    assume "(writePos rb + 1) mod 2 ^ k = readPos rb"
    then show "push (pow2_config k) v rb = (False, rb)"
      by (simp add: push_pow2 [OF b])
  }
  assume e: "readPos rb = writePos rb" and n: "int (length vs) = 2 ^ k - 1"
  have l0: "availableForRead (pow2_config k) rb = 0"
    using e by (simp add: availableForRead_pow2 [OF b])
  then have le: "availableForRead (pow2_config k) rb + int (length vs) \<le> 2 ^ k - 1"
    using n by simp
  note pa = push_all_ok [OF assms le]
  from pa show "\<forall>ok \<in> set (fst (push_all (pow2_config k) vs rb)). ok" by blast
  from pa show "length (fst (push_all (pow2_config k) vs rb)) = length vs" by blast
  from pa l0 n
  show full: "availableForRead (pow2_config k) (snd (push_all (pow2_config k) vs rb)) = 2 ^ k - 1"
    by simp
  from pa have "rb_inv k (snd (push_all (pow2_config k) vs rb))" by blast
  note fn = push_full_noop [OF this full, of v]
  from fn show "(writePos (snd (push_all (pow2_config k) vs rb)) + 1) mod 2 ^ k
              = readPos (snd (push_all (pow2_config k) vs rb))" by blast
  from fn show "push (pow2_config k) v (snd (push_all (pow2_config k) vs rb))
              = (False, snd (push_all (pow2_config k) vs rb))" by blast
qed

theorem push_on_full_is_noop_witness:
  "rb_inv 2 rb_example \<and> readPos rb_example = writePos rb_example
   \<and> int (length [1, 2, 3 :: int16]) = 2 ^ 2 - 1
   \<and> fst (push_all (pow2_config 2) [1, 2, 3] rb_example) = [True, True, True]
   \<and> availableForRead (pow2_config 2) (snd (push_all (pow2_config 2) [1, 2, 3] rb_example)) = 3
   \<and> push (pow2_config 2) 9 (snd (push_all (pow2_config 2) [1, 2, 3] rb_example))
       = (False, snd (push_all (pow2_config 2) [1, 2, 3] rb_example))"
  using push_on_full_is_noop [of 2 rb_example 9 "[1, 2, 3]"]
  by (simp add: rb_example_def rb_inv_def push_def pow2_config_def)

subsection \<open>First in, first out\<close>

lemma level0_iff:
  fixes r w :: int
  assumes "0 \<le> r" "r < 2 ^ k" "0 \<le> w" "w < 2 ^ k"
  shows "((w - r) mod 2 ^ k = 0) = (w = r)"
proof
  assume "(w - r) mod 2 ^ k = 0"
  then have "w mod 2 ^ k = r mod 2 ^ k" by (metis mod_eq_dvd_iff mod_0_imp_dvd)
  with assms show "w = r" by simp
qed simp

lemma queued_eq:
  "buffer rb = Some xs \<Longrightarrow>
   queued k rb = map (\<lambda>i. xs ! nat ((readPos rb + int i) mod 2 ^ k))
                   [0 ..< nat ((writePos rb - readPos rb) mod 2 ^ k)]"
  by (simp add: queued_def availableForRead_pow2)

lemma length_queued:
  "buffer rb = Some xs \<Longrightarrow> int (length (queued k rb)) = availableForRead (pow2_config k) rb"
  by (simp add: queued_eq availableForRead_pow2)

lemma queued_push:
  assumes inv: "rb_inv k rb" and ok: "push (pow2_config k) v rb = (True, rb')"
  shows "queued k rb' = queued k rb @ [v] \<and> rb_inv k rb'
         \<and> availableForRead (pow2_config k) rb < 2 ^ k - 1"
proof -
  from rb_invD [OF inv] obtain xs where b: "buffer rb = Some xs" and len: "length xs = 2 ^ k"
    and r: "0 \<le> readPos rb" "readPos rb < 2 ^ k" and w: "0 \<le> writePos rb" "writePos rb < 2 ^ k"
    by blast
  let ?N = "2 ^ k :: int"
  let ?r = "readPos rb" and ?w = "writePos rb"
  let ?L = "(?w - ?r) mod ?N"
  from ok have nf: "(?w + 1) mod ?N \<noteq> ?r"
    and rb': "rb' = rb \<lparr> buffer := Some (xs[nat ?w := v]), writePos := (?w + 1) mod ?N \<rparr>"
    by (simp_all add: push_pow2 [OF b] split: if_splits)
  have "?L \<noteq> ?N - 1" using full_iff_level [OF r, of ?w] nf by simp
  moreover have "?L < ?N" by simp
  ultimately have L: "?L < ?N - 1" by linarith
  have lv: "availableForRead (pow2_config k) rb < 2 ^ k - 1"
    using L by (simp add: availableForRead_pow2 [OF b])
  note st = push_ok_step [OF inv lv, of v]
  have inv': "rb_inv k rb'" using st by (simp add: ok)
  have b': "buffer rb' = Some (xs[nat ?w := v])" by (simp add: rb')
  have L0: "0 \<le> ?L" by simp
  have rp: "readPos rb' = ?r" by (simp add: rb')
  have "availableForRead (pow2_config k) rb' = availableForRead (pow2_config k) rb + 1"
    using st by (simp add: ok)
  then have lev': "(writePos rb' - readPos rb') mod ?N = ?L + 1"
    by (simp only: availableForRead_pow2 [OF b] availableForRead_pow2 [OF b'])
  have nl: "nat (?L + 1) = Suc (nat ?L)"
    using Suc_nat_eq_nat_zadd1 [OF L0] by (simp only: add.commute)
  have wl: "nat ?w < length xs" using w len by (simp add: nat_less_iff)
  have last: "(?r + int (nat ?L)) mod ?N = ?w"
  proof -
    have "(?r + int (nat ?L)) mod ?N = (?r + ?L) mod ?N" using L0 by simp
    also have "\<dots> = (?r + (?w - ?r)) mod ?N" by (simp add: mod_add_right_eq)
    also have "\<dots> = ?w" using w by simp
    finally show ?thesis .
  qed
  have old: "xs[nat ?w := v] ! nat ((?r + int i) mod ?N) = xs ! nat ((?r + int i) mod ?N)"
    if "i < nat ?L" for i
  proof -
    have ne: "(?r + int i) mod ?N \<noteq> ?w"
    proof
      assume e: "(?r + int i) mod ?N = ?w"
      have "?L = ((?r + int i) mod ?N - ?r) mod ?N" using e by simp
      also have "\<dots> = (?r + int i - ?r) mod ?N" by (simp add: mod_diff_left_eq)
      also have "\<dots> = int i mod ?N" by simp
      also have "\<dots> = int i"
      proof -
        have "int i < ?L" using that by linarith
        with L have "int i < ?N" by linarith
        then show ?thesis by simp
      qed
      finally show False using that by simp
    qed
    have "0 \<le> (?r + int i) mod ?N" by simp
    from eq_nat_nat_iff [OF this w(1)] ne
    have "nat ((?r + int i) mod ?N) \<noteq> nat ?w" by blast
    then show ?thesis by simp
  qed
  have lev2: "(writePos rb' - ?r) mod ?N = ?L + 1" using lev' by (simp only: rp)
  have "queued k rb' = map (\<lambda>i. xs[nat ?w := v] ! nat ((?r + int i) mod ?N)) [0 ..< Suc (nat ?L)]"
    by (simp only: queued_eq [OF b'] rp lev2 nl)
  also have "\<dots> = map (\<lambda>i. xs[nat ?w := v] ! nat ((?r + int i) mod ?N)) [0 ..< nat ?L]
                   @ [xs[nat ?w := v] ! nat ((?r + int (nat ?L)) mod ?N)]"
    by simp
  also have "map (\<lambda>i. xs[nat ?w := v] ! nat ((?r + int i) mod ?N)) [0 ..< nat ?L]
               = map (\<lambda>i. xs ! nat ((?r + int i) mod ?N)) [0 ..< nat ?L]"
    using old by simp
  also have "xs[nat ?w := v] ! nat ((?r + int (nat ?L)) mod ?N) = v"
    using wl by (simp only: last) simp
  finally have "queued k rb' = queued k rb @ [v]"
    by (simp add: queued_eq [OF b])
  with inv' lv show ?thesis by simp
qed

lemma queued_pop:
  assumes inv: "rb_inv k rb" and ne: "queued k rb \<noteq> []"
  shows "fst (pop (pow2_config k) rb) = hd (queued k rb)
         \<and> queued k (snd (pop (pow2_config k) rb)) = tl (queued k rb)
         \<and> rb_inv k (snd (pop (pow2_config k) rb))"
proof -
  from rb_invD [OF inv] obtain xs where b: "buffer rb = Some xs" and len: "length xs = 2 ^ k"
    and r: "0 \<le> readPos rb" "readPos rb < 2 ^ k" and w: "0 \<le> writePos rb" "writePos rb < 2 ^ k"
    by blast
  let ?N = "2 ^ k :: int"
  let ?r = "readPos rb" and ?w = "writePos rb"
  let ?L = "(?w - ?r) mod ?N"
  let ?rb' = "rb \<lparr> readPos := (?r + 1) mod ?N \<rparr>"
  have p: "pop (pow2_config k) rb = (xs ! nat ?r, ?rb')" by (rule pop_pow2 [OF b])
  have b': "buffer ?rb' = Some xs" using b by simp
  have Lp: "0 < ?L" using ne by (simp add: queued_eq [OF b])
  have LN: "?L < ?N" by simp
  have inv': "rb_inv k ?rb'" using b len w by (simp add: rb_inv_def)
  have "(?w - (?r + 1) mod ?N) mod ?N = (?w - (?r + 1)) mod ?N"
    by (simp add: mod_diff_right_eq)
  also have "\<dots> = (?L - 1) mod ?N"
    using mod_diff_left_eq [of "?w - ?r" ?N 1] by (simp add: algebra_simps)
  also have "\<dots> = ?L - 1"
  proof -
    have "0 \<le> ?L - 1" using Lp by linarith
    moreover have "?L < ?N" by simp
    then have "?L - 1 < ?N" by linarith
    ultimately show ?thesis by (rule mod_pos_pos_trivial)
  qed
  finally have lev': "(?w - (?r + 1) mod ?N) mod ?N = ?L - 1" .
  have idx: "((?r + 1) mod ?N + int i) mod ?N = (?r + int (Suc i)) mod ?N" for i
  proof -
    have "((?r + 1) mod ?N + int i) mod ?N = (?r + 1 + int i) mod ?N"
      by (rule mod_add_left_eq)
    also have "?r + 1 + int i = ?r + int (Suc i)" by simp
    finally show ?thesis .
  qed
  have upt: "[0 ..< nat ?L] = 0 # map Suc [0 ..< nat (?L - 1)]"
  proof -
    have "nat ?L = Suc (nat (?L - 1))" using Lp by simp
    then show ?thesis by (simp add: upt_conv_Cons map_Suc_upt del: upt_Suc)
  qed
  have q: "queued k rb = xs ! nat ?r
             # map (\<lambda>i. xs ! nat ((?r + int (Suc i)) mod ?N)) [0 ..< nat (?L - 1)]"
    using r by (simp add: queued_eq [OF b] upt comp_def del: upt_Suc)
  have q': "queued k ?rb' = map (\<lambda>i. xs ! nat ((?r + int (Suc i)) mod ?N)) [0 ..< nat (?L - 1)]"
    by (simp add: queued_eq [OF b'] lev' idx del: of_nat_Suc)
  show ?thesis using inv' by (simp add: p q q')
qed

lemma level_bounds:
  assumes inv: "rb_inv k rb"
  shows "0 \<le> availableForRead (pow2_config k) rb"
    and "availableForRead (pow2_config k) rb \<le> 2 ^ k - 1"
    and "int (length (queued k rb)) = availableForRead (pow2_config k) rb"
proof -
  from rb_invD [OF inv] obtain xs where b: "buffer rb = Some xs" by blast
  have lt: "(writePos rb - readPos rb) mod 2 ^ k < (2 ^ k :: int)" by simp
  have eq: "availableForRead (pow2_config k) rb = (writePos rb - readPos rb) mod 2 ^ k"
    by (rule availableForRead_pow2 [OF b])
  show "availableForRead (pow2_config k) rb \<le> 2 ^ k - 1"
    unfolding eq using lt by linarith
  show "0 \<le> availableForRead (pow2_config k) rb"
    by (simp add: availableForRead_pow2 [OF b])
  show "int (length (queued k rb)) = availableForRead (pow2_config k) rb"
    by (rule length_queued [OF b])
qed

lemma nat_less_pow:
  "(n < 2 ^ k - 1) = (int n < 2 ^ k - 1)"
proof -
  have e: "int (2 ^ k - 1) = 2 ^ k - 1" by (simp add: of_nat_diff)
  have "(n < 2 ^ k - 1) = (int n < int (2 ^ k - 1))" by (simp only: of_nat_less_iff)
  then show ?thesis by (simp only: e)
qed

lemma queued_step_push:
  assumes inv: "rb_inv k rb"
  shows "queued k (snd (push (pow2_config k) v rb))
           = (if length (queued k rb) < 2 ^ k - 1 then queued k rb @ [v] else queued k rb)
         \<and> rb_inv k (snd (push (pow2_config k) v rb))"
proof (cases "availableForRead (pow2_config k) rb < 2 ^ k - 1")
  case True
  note st = push_ok_step [OF inv True, of v]
  then have "push (pow2_config k) v rb = (True, snd (push (pow2_config k) v rb))"
    by (simp add: prod_eq_iff)
  from queued_push [OF inv this] have q: "queued k (snd (push (pow2_config k) v rb)) = queued k rb @ [v]"
    and i: "rb_inv k (snd (push (pow2_config k) v rb))" by simp_all
  have "int (length (queued k rb)) < 2 ^ k - 1" using True level_bounds(3) [OF inv] by simp
  then have "length (queued k rb) < 2 ^ k - 1" by (simp only: nat_less_pow)
  with q i show ?thesis by simp
next
  case False
  with level_bounds(2) [OF inv] have full: "availableForRead (pow2_config k) rb = 2 ^ k - 1"
    by linarith
  from push_full_noop [OF inv full, of v] have "snd (push (pow2_config k) v rb) = rb" by simp
  moreover have "\<not> length (queued k rb) < 2 ^ k - 1"
    unfolding nat_less_pow using full level_bounds(3) [OF inv] by linarith
  ultimately show ?thesis using inv by simp
qed

lemma fifo_refines:
  "rb_inv k rb \<Longrightarrow> fifo_run (2 ^ k) (queued k rb) ops = Some q \<Longrightarrow>
   queued k (rb_run (pow2_config k) ops rb) = q \<and> rb_inv k (rb_run (pow2_config k) ops rb)"
proof (induction ops arbitrary: rb)
  case Nil
  then show ?case by (simp add: rb_run_def)
next
  case (Cons x ops)
  show ?case
  proof (cases x)
    case (Push v)
    note st = queued_step_push [OF Cons.prems(1), of v]
    from st have i: "rb_inv k (rb_step (pow2_config k) rb x)" by (simp add: Push)
    have "fifo_run (2 ^ k) (queued k (rb_step (pow2_config k) rb x)) ops = Some q"
      using Cons.prems(2) st by (simp add: Push)
    from Cons.IH [OF i this] show ?thesis by (simp add: rb_run_def)
  next
    case Pop
    from Cons.prems(2) have ne: "queued k rb \<noteq> []"
      and r: "fifo_run (2 ^ k) (tl (queued k rb)) ops = Some q"
      by (simp_all add: Pop split: if_splits)
    note st = queued_pop [OF Cons.prems(1) ne]
    from st have i: "rb_inv k (rb_step (pow2_config k) rb x)" by (simp add: Pop)
    have "fifo_run (2 ^ k) (queued k (rb_step (pow2_config k) rb x)) ops = Some q"
      using r st by (simp add: Pop)
    from Cons.IH [OF i this] show ?thesis by (simp add: rb_run_def)
  qed
qed

text \<open>
  C7, as stated, fails: with one sample already queued, the pop that follows a second
  successful push returns the older sample, not the one just pushed.
\<close>

theorem pop_after_push_counterexample:
  "fst (push (pow2_config 2) 1 rb_example)
   \<and> fst (push (pow2_config 2) 2 (snd (push (pow2_config 2) 1 rb_example)))
   \<and> fst (pop (pow2_config 2)
        (snd (push (pow2_config 2) 2 (snd (push (pow2_config 2) 1 rb_example))))) = 1
   \<and> fst (pop (pow2_config 2)
        (snd (push (pow2_config 2) 2 (snd (push (pow2_config 2) 1 rb_example))))) \<noteq> 2"
  by (simp add: rb_example_def push_def pop_def pow2_config_def)

text \<open>
  C7, amended. In a buffer of capacity \<open>2^k\<close> satisfying the state invariant, the samples
  in flight form a first-in first-out queue \<open>queued\<close> whose length is \<open>availableForRead\<close>:
  a successful push appends its value at the back, and the pop that immediately follows
  returns the value just pushed when the buffer was empty before that push, otherwise the
  oldest sample not yet popped (the front of the queue before the push); a pop on a
  non-empty buffer returns the front and removes it; and any sequence of pushes and pops
  that never pops an empty buffer leaves the contents a bounded queue of \<open>2^k - 1\<close> places
  would have.
\<close>

theorem pop_after_push:
  assumes inv: "rb_inv k rb"
  shows "(push (pow2_config k) v rb = (True, rb') \<longrightarrow>
            fst (pop (pow2_config k) rb')
              = (if availableForRead (pow2_config k) rb = 0 then v else hd (queued k rb))
          \<and> queued k rb' = queued k rb @ [v])
       \<and> (queued k rb \<noteq> [] \<longrightarrow>
            fst (pop (pow2_config k) rb) = hd (queued k rb)
          \<and> queued k (snd (pop (pow2_config k) rb)) = tl (queued k rb))
       \<and> (fifo_run (2 ^ k) (queued k rb) ops = Some q \<longrightarrow>
            queued k (rb_run (pow2_config k) ops rb) = q)
       \<and> int (length (queued k rb)) = availableForRead (pow2_config k) rb"
proof (intro conjI impI)
  assume ok: "push (pow2_config k) v rb = (True, rb')"
  from queued_push [OF inv ok] have q: "queued k rb' = queued k rb @ [v]"
    and i: "rb_inv k rb'" by simp_all
  show "queued k rb' = queued k rb @ [v]" by (rule q)
  have "queued k rb' \<noteq> []" by (simp add: q)
  from queued_pop [OF i this] have "fst (pop (pow2_config k) rb') = hd (queued k rb @ [v])"
    by (simp add: q)
  moreover have "(availableForRead (pow2_config k) rb = 0) = (queued k rb = [])"
    using level_bounds(3) [OF inv] by auto
  ultimately show "fst (pop (pow2_config k) rb')
              = (if availableForRead (pow2_config k) rb = 0 then v else hd (queued k rb))"
    by simp
next
  assume ne: "queued k rb \<noteq> []"
  from queued_pop [OF inv ne]
  show "fst (pop (pow2_config k) rb) = hd (queued k rb)"
    and "queued k (snd (pop (pow2_config k) rb)) = tl (queued k rb)" by simp_all
next
  assume "fifo_run (2 ^ k) (queued k rb) ops = Some q"
  from fifo_refines [OF inv this] show "queued k (rb_run (pow2_config k) ops rb) = q" by simp
next
  show "int (length (queued k rb)) = availableForRead (pow2_config k) rb"
    by (rule level_bounds(3) [OF inv])
qed

theorem pop_after_push_witness:
  "rb_inv 2 (snd (push (pow2_config 2) 1 rb_example))
   \<and> push (pow2_config 2) 2 (snd (push (pow2_config 2) 1 rb_example))
       = (True, \<lparr> buffer = Some [1, 2, 0, 0], readPos = 0, writePos = 2 \<rparr>)
   \<and> queued 2 (snd (push (pow2_config 2) 1 rb_example)) = [1]
   \<and> fst (pop (pow2_config 2) \<lparr> buffer = Some [1, 2, 0, 0], readPos = 0, writePos = 2 \<rparr>) = 1
   \<and> queued 2 \<lparr> buffer = Some [1, 2, 0, 0], readPos = 0, writePos = 2 \<rparr> = [1, 2]
   \<and> fifo_run (2 ^ 2) [1] [Push 2, Pop, Push 3, Pop] = Some [3]
   \<and> queued 2 (rb_run (pow2_config 2) [Push 2, Pop, Push 3, Pop]
        (snd (push (pow2_config 2) 1 rb_example))) = [3]"
  using pop_after_push [of 2 "snd (push (pow2_config 2) 1 rb_example)" 2
      "\<lparr> buffer = Some [1, 2, 0, 0], readPos = 0, writePos = 2 \<rparr>"
      "[Push 2, Pop, Push 3, Pop]" "[3]"]
  by (simp add: queued_def rb_example_def rb_inv_def push_def pop_def pow2_config_def
      availableForRead_def rb_run_def upt_conv_Cons)

subsection \<open>Pop does not look at the fill level\<close>

text \<open>
  C10. With an allocated backing array, \<open>pop\<close> returns the sample stored at \<open>readPos\<close> and
  advances \<open>readPos\<close> by one modulo the capacity \<open>N = 2^k\<close>, whatever the fill level is. On
  an empty buffer (\<open>availableForRead\<close> is 0) it therefore hands out a stale sample and
  leaves a buffer that reports \<open>N - 1\<close> samples available for reading.
\<close>

theorem pop_has_no_empty_check:
  assumes b: "buffer rb = Some xs"
  shows "pop (pow2_config k) rb
           = (xs ! nat (readPos rb), rb \<lparr> readPos := (readPos rb + 1) mod 2 ^ k \<rparr>)
       \<and> (availableForRead (pow2_config k) rb = 0 \<longrightarrow>
            availableForRead (pow2_config k) (snd (pop (pow2_config k) rb)) = 2 ^ k - 1)"
proof (intro conjI impI)
  show "pop (pow2_config k) rb
           = (xs ! nat (readPos rb), rb \<lparr> readPos := (readPos rb + 1) mod 2 ^ k \<rparr>)"
    by (rule pop_pow2 [OF b])
next
  assume "availableForRead (pow2_config k) rb = 0"
  then have z: "(writePos rb - readPos rb) mod 2 ^ k = 0" by (simp add: availableForRead_pow2 [OF b])
  let ?rb' = "rb \<lparr> readPos := (readPos rb + 1) mod 2 ^ k \<rparr>"
  have b': "buffer ?rb' = Some xs" using b by simp
  have "(writePos rb - (readPos rb + 1) mod 2 ^ k) mod 2 ^ k
          = (writePos rb - (readPos rb + 1)) mod 2 ^ k"
    by (simp add: mod_diff_right_eq)
  also have "\<dots> = ((writePos rb - readPos rb) mod 2 ^ k - 1) mod 2 ^ k"
    using mod_diff_left_eq [of "writePos rb - readPos rb" "2 ^ k" 1] by (simp add: algebra_simps)
  also have "\<dots> = 2 ^ k - 1" using z by (simp add: zmod_minus1)
  finally show "availableForRead (pow2_config k) (snd (pop (pow2_config k) rb)) = 2 ^ k - 1"
    by (simp add: pop_pow2 [OF b] availableForRead_pow2 [OF b'])
qed

theorem pop_has_no_empty_check_witness:
  "buffer rb_example = Some [0, 0, 0, 0]
   \<and> availableForRead (pow2_config 2) rb_example = 0
   \<and> pop (pow2_config 2) rb_example = (0, rb_example \<lparr> readPos := 1 \<rparr>)
   \<and> availableForRead (pow2_config 2) (snd (pop (pow2_config 2) rb_example)) = 3"
  using pop_has_no_empty_check [of rb_example "[0, 0, 0, 0]" 2]
  by (simp add: rb_example_def availableForRead_def pow2_config_def)

section \<open>Properties of the synthesized header\<close>

lemma freqIdx_range: "0 \<le> freqIdx r \<and> freqIdx r \<le> 9"
  by (simp add: freqIdx_def)

lemma index_bits:
  assumes f: "0 \<le> f" "f \<le> 9"
  shows "drop_bit 2 (word_of_int (push_bit 6 1 OR push_bit 2 f OR (c AND 1)) :: u8) AND 0xF
           = word_of_int f"
proof -
  have c: "c AND 1 = 0 \<or> c AND 1 = 1" by (simp add: and_one_eq) presburger
  have "f = 0 \<or> f = 1 \<or> f = 2 \<or> f = 3 \<or> f = 4 \<or> f = 5 \<or> f = 6 \<or> f = 7 \<or> f = 8 \<or> f = 9"
    using f by arith
  with c show ?thesis
    by (elim disjE) simp_all
qed

text \<open>
  C3, as stated, fails at the rate 8000: no rung of the ladder applies, the initial value
  of \<open>freqIdx\<close> stays, and the header carries index 4, not 9.
\<close>

theorem header_frequency_index_counterexample:
  "header_freq_index (generateAdtsHeader 17 2 8000 2) = 4
   \<and> header_freq_index (generateAdtsHeader 17 2 8000 2) \<noteq> 9"
  by (simp add: header_freq_index_def generateAdtsHeader_def freqIdx_def)

text \<open>
  C3, amended. For every sample rate (and every frame length and channel count) the
  sampling-frequency index stored in header byte 2 is the value of the descending ladder:
  it is 4 exactly for rates in \<open>[44100, 48000)\<close> and for every rate below 12000, which
  keeps the default and is no error; it is 7 exactly for rates in \<open>[22050, 24000)\<close>; and
  it is 9 exactly for rates in \<open>[12000, 16000)\<close>. So 44100 gives 4, 22050 gives 7 and 8000
  gives 4.
\<close>

theorem header_frequency_index:
  "header_freq_index (generateAdtsHeader len profile rate chans)
      = word_of_int (freqIdx rate)
   \<and> (freqIdx rate = 4) = (44100 \<le> rate \<and> rate < 48000 \<or> rate < 12000)
   \<and> (freqIdx rate = 7) = (22050 \<le> rate \<and> rate < 24000)
   \<and> (freqIdx rate = 9) = (12000 \<le> rate \<and> rate < 16000)"
  using index_bits [of "freqIdx rate" "drop_bit 2 chans"] freqIdx_range [of rate]
  by (simp add: header_freq_index_def generateAdtsHeader_def) (simp add: freqIdx_def)

theorem header_frequency_index_witness:
  "header_freq_index (generateAdtsHeader 17 2 44100 2) = 4
   \<and> header_freq_index (generateAdtsHeader 17 2 22050 2) = 7
   \<and> header_freq_index (generateAdtsHeader 17 2 8000 2) = 4
   \<and> header_freq_index (generateAdtsHeader 17 2 12000 2) = 9"
  using header_frequency_index [of 17 2 44100 2] header_frequency_index [of 17 2 22050 2]
    header_frequency_index [of 17 2 8000 2] header_frequency_index [of 17 2 12000 2]
  by simp

section \<open>Reading helpers in terms of positions\<close>

lemma past_in_range: "q + len \<le> length cs \<Longrightarrow> past cs len q = q + len"
  by (simp add: past_def)

lemma readUI32BE_eq:
  "readUI32BE p =
     (u32_at (contents (activeFile p)) (position (activeFile p)),
      repos (past (contents (activeFile p)) 4 (position (activeFile p))) p)"
  by (simp add: readUI32BE_def file_read_def u32_at_def repos_def Let_def past_def)

lemma seek_eq: "seek w p = repos (unat w) p"
  by (simp add: seek_def file_seek_def repos_def)

lemma read_eq:
  "read len p =
     (take len (drop (position (activeFile p)) (contents (activeFile p))),
      repos (past (contents (activeFile p)) len (position (activeFile p))) p)"
  by (simp add: read_def file_read_def repos_def Let_def past_def)

lemma getPos_repos: "getPos (repos q p) = of_nat q"
  by (simp add: getPos_def repos_def)

lemma repos_repos: "repos q (repos q' p) = repos q p"
  by (simp add: repos_def)

lemma repos_fields:
  "contents (activeFile (repos q p)) = contents (activeFile p)"
  "position (activeFile (repos q p)) = q"
  "usingFlash (repos q p) = usingFlash p"
  "stszOffset (repos q p) = stszOffset p"
  "stcoOffset (repos q p) = stcoOffset p"
  "stscOffset (repos q p) = stscOffset p"
  "mdatOffset (repos q p) = mdatOffset p"
  "sampleRate (repos q p) = sampleRate p"
  "channels (repos q p) = channels p"
  "currentSample (repos q p) = currentSample p"
  "totalSamples (repos q p) = totalSamples p"
  "currentChunk (repos q p) = currentChunk p"
  "samplesInCurrentChunk (repos q p) = samplesInCurrentChunk p"
  "samplesReadInChunk (repos q p) = samplesReadInChunk p"
  "currentOffset (repos q p) = currentOffset p"
  by (simp_all add: repos_def)

lemma repos_update:
  "repos q (p \<lparr> currentChunk := c \<rparr>) = (repos q p) \<lparr> currentChunk := c \<rparr>"
  "repos q (p \<lparr> samplesReadInChunk := c \<rparr>) = (repos q p) \<lparr> samplesReadInChunk := c \<rparr>"
  "repos q (p \<lparr> samplesInCurrentChunk := c \<rparr>) = (repos q p) \<lparr> samplesInCurrentChunk := c \<rparr>"
  "repos q (p \<lparr> currentOffset := c \<rparr>) = (repos q p) \<lparr> currentOffset := c \<rparr>"
  "repos q (p \<lparr> currentSample := c \<rparr>) = (repos q p) \<lparr> currentSample := c \<rparr>"
  by (simp_all add: repos_def)

lemma cursor_repos: "cursor (repos q p) = cursor p"
  by (simp add: cursor_def repos_fields)

lemmas io_simps = readUI32BE_eq seek_eq read_eq getPos_repos repos_repos repos_fields

lemma moved_refl: "moved p p"
proof -
  have "p = repos (position (activeFile p)) p" by (simp add: repos_def)
  then show ?thesis unfolding moved_def by blast
qed

lemma moved_trans: "moved p p' \<Longrightarrow> moved p' p'' \<Longrightarrow> moved p p''"
  unfolding moved_def by (metis repos_repos)

lemma moved_repos: "moved p (repos q p)"
  unfolding moved_def by blast

lemma moved_seek: "moved p (seek w p)"
  by (simp add: seek_eq moved_repos)

lemma moved_readUI32BE: "moved p (snd (readUI32BE p))"
  by (simp add: readUI32BE_eq moved_repos)

lemma moved_readUI32BE': "readUI32BE p = (v, p') \<Longrightarrow> moved p p'"
  using moved_readUI32BE [of p] by simp

lemma moved_read: "moved p (snd (read n p))"
  by (simp add: read_eq moved_repos)

section \<open>stscLoop frame\<close>

lemma stscLoop_stop': "\<not> i < n \<Longrightarrow> stscLoop n i p = p"
  by (subst stscLoop.simps) simp

lemma stscLoop_step:
  "i < n \<Longrightarrow> readUI32BE p = (fc, p1) \<Longrightarrow> readUI32BE p1 = (sp, p2) \<Longrightarrow> readUI32BE p2 = (ident, p3) \<Longrightarrow>
   stscLoop n i p = (if fc > currentChunk p3 then p3
                     else stscLoop n (i + 1) (p3 \<lparr> samplesInCurrentChunk := sp \<rparr>))"
  by (subst stscLoop.simps) simp

lemma repos_self: "repos (position (activeFile p)) (p \<lparr> samplesInCurrentChunk := samplesInCurrentChunk p \<rparr>) = p"
  by (simp add: repos_def)

lemma stscLoop_frame:
  "\<exists>q v. stscLoop n i p = repos q (p \<lparr> samplesInCurrentChunk := v \<rparr>)"
proof (induction n i p rule: stscLoop.induct)
  case (1 entryCount i p)
  show ?case
  proof (cases "i < entryCount")
    case False
    then have "stscLoop entryCount i p = p" by (rule stscLoop_stop')
    with repos_self [of p] show ?thesis by metis
  next
    case True
    obtain fc p1 where r1: "readUI32BE p = (fc, p1)" by (cases "readUI32BE p")
    obtain sp p2 where r2: "readUI32BE p1 = (sp, p2)" by (cases "readUI32BE p1")
    obtain ident p3 where r3: "readUI32BE p2 = (ident, p3)" by (cases "readUI32BE p2")
    have "moved p p3"
      using moved_readUI32BE' [OF r1] moved_readUI32BE' [OF r2] moved_readUI32BE' [OF r3]
      by (meson moved_trans)
    then have "\<exists>q. p3 = repos q p" by (simp add: moved_def)
    then obtain q' where p3: "p3 = repos q' p" by blast
    note st = stscLoop_step [OF True r1 r2 r3]
    show ?thesis
    proof (cases "fc > currentChunk p3")
      case True
      have "p3 = repos q' (p \<lparr> samplesInCurrentChunk := samplesInCurrentChunk p \<rparr>)"
        using p3 by simp
      with st True show ?thesis by metis
    next
      case False
      from "1.IH" [OF \<open>i < entryCount\<close> r1 [symmetric] refl r2 [symmetric] refl r3 [symmetric] refl False]
      obtain q v where "stscLoop entryCount (i + 1) (p3 \<lparr> samplesInCurrentChunk := sp \<rparr>)
          = repos q (p3 \<lparr> samplesInCurrentChunk := sp, samplesInCurrentChunk := v \<rparr>)"
        by auto
      then have "stscLoop entryCount (i + 1) (p3 \<lparr> samplesInCurrentChunk := sp \<rparr>)
          = repos q (p \<lparr> samplesInCurrentChunk := v \<rparr>)"
        by (simp add: p3 repos_def)
      with st False show ?thesis by metis
    qed
  qed
qed

lemma nextChunk_eq:
  "nextChunk p =
     stscLoop (u32_at (contents (activeFile p)) (unat (stscOffset p + 12))) 0
       ((repos (past (contents (activeFile p)) 4 (unat (stscOffset p + 12))) p)
          \<lparr> currentChunk := currentChunk p + 1, samplesReadInChunk := 0,
            currentOffset := u32_at (contents (activeFile p))
                               (unat (stcoOffset p + 16 + (currentChunk p + 1 - 1) * 4)) \<rparr>)"
  by (simp add: nextChunk_def io_simps Let_def repos_update cong: let_weak_cong prod.case_cong_weak)

lemma nextChunk_repos: "nextChunk (repos q p) = nextChunk p"
  by (simp add: nextChunk_eq repos_fields repos_repos)

lemma stsz_reads_repos:
  "stszDefaultSize (repos q p) = stszDefaultSize p"
  "stszCount (repos q p) = stszCount p"
  "nextFrameSize (repos q p) = nextFrameSize p"
  by (simp_all add: stszDefaultSize_def stszCount_def nextFrameSize_def io_simps)

lemma moved_fields:
  assumes "moved p p'"
  shows "contents (activeFile p') = contents (activeFile p)"
    "stszOffset p' = stszOffset p" "stcoOffset p' = stcoOffset p" "stscOffset p' = stscOffset p"
    "sampleRate p' = sampleRate p" "channels p' = channels p"
    "currentSample p' = currentSample p" "currentChunk p' = currentChunk p"
    "samplesInCurrentChunk p' = samplesInCurrentChunk p"
    "samplesReadInChunk p' = samplesReadInChunk p" "currentOffset p' = currentOffset p"
    "cursor p' = cursor p"
    "stszDefaultSize p' = stszDefaultSize p" "stszCount p' = stszCount p"
    "nextFrameSize p' = nextFrameSize p" "nextChunk p' = nextChunk p"
  using assms unfolding moved_def
  by (auto simp: repos_fields cursor_repos stsz_reads_repos nextChunk_repos)

text \<open>readNextFrame with the reads named.\<close>

lemma readNextFrame_unfold:
  "readNextFrame B p =
     (if stszOffset p = 0 then (0, [], p)
      else if currentSample p \<ge> stszCount p then (0, [], repos (rejectPos p) p)
      else if nextFrameSize p + 7 > B then (0, [], repos (rejectPos p) p)
      else
         (nextFrameSize p + 7,
             generateAdtsHeader (sint (nextFrameSize p + 7)) 2 (sint (sampleRate (chunkStep p)))
                (uint (channels (chunkStep p)))
               @ take (unat (nextFrameSize p))
                   (drop (unat (currentOffset (chunkStep p))) (contents (activeFile (chunkStep p)))),
             (repos (past (contents (activeFile (chunkStep p))) (unat (nextFrameSize p))
                       (unat (currentOffset (chunkStep p)))) (chunkStep p))
               \<lparr> currentOffset := currentOffset (chunkStep p) + nextFrameSize p,
                 currentSample := currentSample (chunkStep p) + 1,
                 samplesReadInChunk := samplesReadInChunk (chunkStep p) + 1 \<rparr>))"
proof -
  let ?cs = "contents (activeFile p)"
  let ?q1 = "unat (stszOffset p + 12)"
  let ?q2 = "past ?cs 4 ?q1"
  let ?qs = "unat (stszOffset p + 20 + currentSample p * 4)"
  have d: "stszDefaultSize p = u32_at ?cs ?q1"
    by (simp add: stszDefaultSize_def io_simps)
  have c: "stszCount p = u32_at ?cs ?q2"
    by (simp add: stszCount_def io_simps)
  have f: "nextFrameSize p = (if u32_at ?cs ?q1 = 0 then u32_at ?cs ?qs else u32_at ?cs ?q1)"
    by (simp add: nextFrameSize_def d io_simps)
  show ?thesis
    unfolding readNextFrame_def rejectPos_def chunkStep_def c d f
    by (simp add: io_simps Let_def repos_update nextChunk_repos
        cong: let_weak_cong prod.case_cong_weak)
qed

lemma rnf_rejects:
  assumes "stszOffset p = 0 \<or> stszCount p \<le> currentSample p \<or> B < nextFrameSize p + 7"
  shows "fst (readNextFrame B p) = 0 \<and> fst (snd (readNextFrame B p)) = []
         \<and> cursor (snd (snd (readNextFrame B p))) = cursor p"
  using assms by (auto simp: readNextFrame_unfold cursor_repos)

lemma rnf_accepts:
  assumes "stszOffset p \<noteq> 0" "currentSample p < stszCount p" "\<not> B < nextFrameSize p + 7"
  shows "readNextFrame B p =
         (nextFrameSize p + 7,
             generateAdtsHeader (sint (nextFrameSize p + 7)) 2 (sint (sampleRate (chunkStep p)))
                (uint (channels (chunkStep p)))
               @ take (unat (nextFrameSize p))
                   (drop (unat (currentOffset (chunkStep p))) (contents (activeFile (chunkStep p)))),
             (repos (past (contents (activeFile (chunkStep p))) (unat (nextFrameSize p))
                       (unat (currentOffset (chunkStep p)))) (chunkStep p))
               \<lparr> currentOffset := currentOffset (chunkStep p) + nextFrameSize p,
                 currentSample := currentSample (chunkStep p) + 1,
                 samplesReadInChunk := samplesReadInChunk (chunkStep p) + 1 \<rparr>)"
proof -
  have "\<not> stszCount p \<le> currentSample p" using assms(2) by (simp add: not_le)
  with assms(1,3) show ?thesis by (simp add: readNextFrame_unfold)
qed

section \<open>Evaluation on the example files\<close>

lemma past_short: "length cs \<le> q + len \<Longrightarrow> q \<le> length cs \<Longrightarrow> past cs len q = length cs"
  by (simp add: past_def)

lemma stblLoop_stop:
  "\<not> (getPos p < stblEnd \<and> c4 < 100) \<Longrightarrow> stblLoop stblEnd c4 p = (c4, p)"
  by (subst stblLoop.simps) (simp only: if_True if_False simp_thms)

lemma stblLoop_go:
  "getPos p < stblEnd \<and> c4 < 100 \<Longrightarrow>
   stblLoop stblEnd c4 p =
        (let (s4, p1) = readUI32BE p;
             (t4, p2) = readUI32BE p1
         in if s4 < 8 then (c4 + 1, p2)
            else
              (let nextStblChild = getPos p2 + s4 - 8;
                   p3 = (if t4 = 0x7374737A then p2 \<lparr> stszOffset := getPos p2 - 8 \<rparr>
                         else if t4 = 0x7374636F then p2 \<lparr> stcoOffset := getPos p2 - 8 \<rparr>
                         else if t4 = 0x73747363 then p2 \<lparr> stscOffset := getPos p2 - 8 \<rparr>
                         else if t4 = 0x73747364 then snd (parseStsd (s4 - 8) p2)
                         else p2)
               in stblLoop stblEnd (c4 + 1) (seek nextStblChild p3)))"
  by (subst stblLoop.simps) (simp only: if_True if_False simp_thms)

lemma minfLoop_stop:
  "\<not> (getPos p < minfEnd \<and> c3 < 100) \<Longrightarrow> minfLoop minfEnd c3 p = (c3, p)"
  by (subst minfLoop.simps) (simp only: if_True if_False simp_thms)

lemma minfLoop_go:
  "getPos p < minfEnd \<and> c3 < 100 \<Longrightarrow>
   minfLoop minfEnd c3 p =
        (let (s3, p1) = readUI32BE p;
             (t3, p2) = readUI32BE p1
         in if s3 < 8 then (c3 + 1, p2)
            else
              (let nextMinfChild = getPos p2 + s3 - 8;
                   p3 = (if t3 = 0x7374626C then
                           (let stblEnd = getPos p2 + s3 - 8 in snd (stblLoop stblEnd 0 p2))
                         else p2)
               in minfLoop minfEnd (c3 + 1) (seek nextMinfChild p3)))"
  by (subst minfLoop.simps) (simp only: if_True if_False simp_thms)

lemma mdiaLoop_stop:
  "\<not> (getPos p < mdiaEnd \<and> c2 < 100) \<Longrightarrow> mdiaLoop mdiaEnd c2 isAudio p = (c2, isAudio, p)"
  by (subst mdiaLoop.simps) (simp only: if_True if_False simp_thms)

lemma mdiaLoop_go:
  "getPos p < mdiaEnd \<and> c2 < 100 \<Longrightarrow>
   mdiaLoop mdiaEnd c2 isAudio p =
        (let (s2, p1) = readUI32BE p;
             (t2, p2) = readUI32BE p1
         in if s2 < 8 then (c2 + 1, isAudio, p2)
            else
              (let nextMdiaChild = getPos p2 + s2 - 8;
                   (isAudio', p3) =
                     (if t2 = 0x68646C72 then
                        (let p2a = seek (getPos p2 + 8) p2;
                             (subtype, p2b) = readUI32BE p2a
                         in (if subtype = 0x736F756E then True else isAudio, p2b))
                      else if t2 = 0x6D696E66 then
                        (let minfEnd = getPos p2 + s2 - 8
                         in (isAudio, snd (minfLoop minfEnd 0 p2)))
                      else (isAudio, p2))
               in mdiaLoop mdiaEnd (c2 + 1) isAudio' (seek nextMdiaChild p3)))"
  by (subst mdiaLoop.simps) (simp only: if_True if_False simp_thms)

lemma trakLoop_stop:
  "\<not> (getPos p < endPos \<and> count < 500) \<Longrightarrow> trakLoop endPos count isAudio p = (count, isAudio, p)"
  by (subst trakLoop.simps) (simp only: if_True if_False simp_thms)

lemma trakLoop_go:
  "getPos p < endPos \<and> count < 500 \<Longrightarrow>
   trakLoop endPos count isAudio p =
        (let (size, p1) = readUI32BE p;
             (type, p2) = readUI32BE p1
         in if size < 8 then (count + 1, isAudio, p2)
            else
              (let nextAtomPos = getPos p2 + size - 8;
                   (isAudio', p3) =
                     (if type = 0x6D646961 then
                        (let mdiaEnd = getPos p2 + size - 8
                         in snd (mdiaLoop mdiaEnd 0 isAudio p2))
                      else (isAudio, p2))
               in trakLoop endPos (count + 1) isAudio' (seek nextAtomPos p3)))"
  by (subst trakLoop.simps) (simp only: if_True if_False simp_thms)

lemma moovLoop_stop:
  "\<not> (getPos p < endPos \<and> count < 500) \<Longrightarrow> moovLoop endPos count p = (count, False, p)"
  by (subst moovLoop.simps) (simp only: if_True if_False simp_thms)

lemma moovLoop_go:
  "getPos p < endPos \<and> count < 500 \<Longrightarrow>
   moovLoop endPos count p =
        (let (size, p1) = readUI32BE p;
             (type, p2) = readUI32BE p1
         in if size < 8 then (count + 1, False, p2)
            else
              (let nextAtomPos = getPos p2 + size - 8;
                   (found, p3) = (if type = 0x7472616B then parseTrak (size - 8) p2
                                  else (False, p2))
               in if found then (count + 1, True, p3)
                  else moovLoop endPos (count + 1) (seek nextAtomPos p3)))"
  by (subst moovLoop.simps) (simp only: if_True if_False simp_thms)

lemma openLoop_stop:
  "\<not> (pos < fileSize \<and> atomCount < 1000) \<Longrightarrow> openLoop fileSize pos atomCount moovFound p = (atomCount, moovFound, p)"
  by (subst openLoop.simps) (simp only: if_True if_False simp_thms)

lemma openLoop_go:
  "pos < fileSize \<and> atomCount < 1000 \<Longrightarrow>
   openLoop fileSize pos atomCount moovFound p =
        (let p1 = seek pos p;
             (atomSize, p2) = readUI32BE p1;
             (atomType, p3) = readUI32BE p2
         in if atomSize = 0 then (atomCount + 1, moovFound, p3)
            else
              (let (atomSize', p4) =
                     (if atomSize = 1 then
                        (let p3a = seek (pos + 8) p3;
                             (high, p3b) = readUI32BE p3a;
                             (low, p3c) = readUI32BE p3b
                         in (low, p3c))
                      else (atomSize, p3))
               in if atomSize' < 8 then (atomCount + 1, moovFound, p4)
                  else
                    (let (moovFound', p5) =
                           (if atomType = 0x6D6F6F76 then
                              (True, snd (parseMoov (atomSize' - 8) p4))
                            else if atomType = 0x6D646174 then
                              (moovFound, p4 \<lparr> mdatOffset := pos + 8 \<rparr>)
                            else (moovFound, p4));
                         pos' = pos + atomSize'
                     in if pos' > fileSize then (atomCount + 1, moovFound', p5)
                        else openLoop fileSize pos' (atomCount + 1) moovFound' p5)))"
  by (subst openLoop.simps) (simp only: if_True if_False simp_thms)

lemma stscLoop_stop:
  "\<not> (i < entryCount) \<Longrightarrow> stscLoop entryCount i p = p"
  by (subst stscLoop.simps) (simp only: if_True if_False simp_thms)

lemma stscLoop_go:
  "i < entryCount \<Longrightarrow>
   stscLoop entryCount i p =
        (let (firstChunk, p1) = readUI32BE p;
             (samplesPer, p2) = readUI32BE p1;
             (ident, p3) = readUI32BE p2
         in if firstChunk > currentChunk p3 then p3
            else stscLoop entryCount (i + 1) (p3 \<lparr> samplesInCurrentChunk := samplesPer \<rparr>))"
  by (subst stscLoop.simps) (simp only: if_True if_False simp_thms)

lemmas eval_rules = open_def openLoop_stop openLoop_go parseMoov_def moovLoop_stop moovLoop_go
  parseTrak_def trakLoop_stop trakLoop_go mdiaLoop_stop mdiaLoop_go minfLoop_stop minfLoop_go
  stblLoop_stop stblLoop_go parseStsd_def
  seek_eq readUI32BE_eq read_eq getPos_def repos_def past_in_range past_short
  parser_on_def new_parser_def closed_file_def opened_def Let_def

lemmas frame_rules = readNextFrame_def
  seek_eq readUI32BE_eq read_eq repos_def past_in_range past_short parser_on_def Let_def

lemmas chunk_rules = nextChunk_def stscLoop_stop stscLoop_go
  seek_eq readUI32BE_eq repos_def past_in_range past_short parser_on_def Let_def

lemma length_audio: "length audio_container = 268" by (simp add: audio_container_def)
lemma length_video: "length video_container = 152" by (simp add: video_container_def)
lemma length_short: "length short_container = 204" by (simp add: short_container_def)

lemma words_audio:
  "u32_at audio_container 0 = 200"
  "u32_at audio_container 4 = 1836019574"
  "u32_at audio_container 8 = 192"
  "u32_at audio_container 12 = 1953653099"
  "u32_at audio_container 16 = 184"
  "u32_at audio_container 20 = 1835297121"
  "u32_at audio_container 24 = 32"
  "u32_at audio_container 28 = 1751411826"
  "u32_at audio_container 32 = 0"
  "u32_at audio_container 36 = 0"
  "u32_at audio_container 40 = 1936684398"
  "u32_at audio_container 44 = 0"
  "u32_at audio_container 48 = 0"
  "u32_at audio_container 52 = 0"
  "u32_at audio_container 56 = 144"
  "u32_at audio_container 60 = 1835626086"
  "u32_at audio_container 64 = 136"
  "u32_at audio_container 68 = 1937007212"
  "u32_at audio_container 72 = 52"
  "u32_at audio_container 76 = 1937011556"
  "u32_at audio_container 80 = 0"
  "u32_at audio_container 84 = 1"
  "u32_at audio_container 88 = 36"
  "u32_at audio_container 92 = 1836069985"
  "u32_at audio_container 96 = 0"
  "u32_at audio_container 100 = 1"
  "u32_at audio_container 104 = 0"
  "u32_at audio_container 108 = 0"
  "u32_at audio_container 112 = 131088"
  "u32_at audio_container 116 = 0"
  "u32_at audio_container 120 = 2890137600"
  "u32_at audio_container 124 = 20"
  "u32_at audio_container 128 = 1937011578"
  "u32_at audio_container 132 = 0"
  "u32_at audio_container 136 = 10"
  "u32_at audio_container 140 = 6"
  "u32_at audio_container 144 = 28"
  "u32_at audio_container 148 = 1937011555"
  "u32_at audio_container 152 = 0"
  "u32_at audio_container 156 = 1"
  "u32_at audio_container 160 = 1"
  "u32_at audio_container 164 = 2"
  "u32_at audio_container 168 = 1"
  "u32_at audio_container 172 = 28"
  "u32_at audio_container 176 = 1937007471"
  "u32_at audio_container 180 = 0"
  "u32_at audio_container 184 = 3"
  "u32_at audio_container 188 = 208"
  "u32_at audio_container 192 = 228"
  "u32_at audio_container 196 = 248"
  "u32_at audio_container 200 = 68"
  "u32_at audio_container 204 = 1835295092"
  "u32_at audio_container 208 = 16909060"
  "u32_at audio_container 212 = 84281096"
  by (simp_all add: audio_container_def u32_at_def be32_def)

lemma words_video:
  "u32_at video_container 0 = 140"
  "u32_at video_container 4 = 1836019574"
  "u32_at video_container 8 = 132"
  "u32_at video_container 12 = 1953653099"
  "u32_at video_container 16 = 124"
  "u32_at video_container 20 = 1835297121"
  "u32_at video_container 24 = 32"
  "u32_at video_container 28 = 1751411826"
  "u32_at video_container 32 = 0"
  "u32_at video_container 36 = 0"
  "u32_at video_container 40 = 1986618469"
  "u32_at video_container 44 = 0"
  "u32_at video_container 48 = 0"
  "u32_at video_container 52 = 0"
  "u32_at video_container 56 = 84"
  "u32_at video_container 60 = 1835626086"
  "u32_at video_container 64 = 76"
  "u32_at video_container 68 = 1937007212"
  "u32_at video_container 72 = 20"
  "u32_at video_container 76 = 1937011578"
  "u32_at video_container 80 = 0"
  "u32_at video_container 84 = 4"
  "u32_at video_container 88 = 1"
  "u32_at video_container 92 = 28"
  "u32_at video_container 96 = 1937011555"
  "u32_at video_container 100 = 0"
  "u32_at video_container 104 = 1"
  "u32_at video_container 108 = 1"
  "u32_at video_container 112 = 1"
  "u32_at video_container 116 = 1"
  "u32_at video_container 120 = 20"
  "u32_at video_container 124 = 1937007471"
  "u32_at video_container 128 = 0"
  "u32_at video_container 132 = 1"
  "u32_at video_container 136 = 148"
  "u32_at video_container 140 = 12"
  "u32_at video_container 144 = 1835295092"
  "u32_at video_container 148 = 16909060"
  by (simp_all add: video_container_def u32_at_def be32_def)

lemma words_short:
  "u32_at short_container 0 = 192"
  "u32_at short_container 4 = 1836019574"
  "u32_at short_container 8 = 184"
  "u32_at short_container 12 = 1953653099"
  "u32_at short_container 16 = 176"
  "u32_at short_container 20 = 1835297121"
  "u32_at short_container 24 = 32"
  "u32_at short_container 28 = 1751411826"
  "u32_at short_container 32 = 0"
  "u32_at short_container 36 = 0"
  "u32_at short_container 40 = 1936684398"
  "u32_at short_container 44 = 0"
  "u32_at short_container 48 = 0"
  "u32_at short_container 52 = 0"
  "u32_at short_container 56 = 136"
  "u32_at short_container 60 = 1835626086"
  "u32_at short_container 64 = 128"
  "u32_at short_container 68 = 1937007212"
  "u32_at short_container 72 = 52"
  "u32_at short_container 76 = 1937011556"
  "u32_at short_container 80 = 0"
  "u32_at short_container 84 = 1"
  "u32_at short_container 88 = 36"
  "u32_at short_container 92 = 1836069985"
  "u32_at short_container 96 = 0"
  "u32_at short_container 100 = 1"
  "u32_at short_container 104 = 0"
  "u32_at short_container 108 = 0"
  "u32_at short_container 112 = 131088"
  "u32_at short_container 116 = 0"
  "u32_at short_container 120 = 2890137600"
  "u32_at short_container 124 = 20"
  "u32_at short_container 128 = 1937011578"
  "u32_at short_container 132 = 0"
  "u32_at short_container 136 = 10"
  "u32_at short_container 140 = 1"
  "u32_at short_container 144 = 28"
  "u32_at short_container 148 = 1937011555"
  "u32_at short_container 152 = 0"
  "u32_at short_container 156 = 1"
  "u32_at short_container 160 = 1"
  "u32_at short_container 164 = 1"
  "u32_at short_container 168 = 1"
  "u32_at short_container 172 = 20"
  "u32_at short_container 176 = 1937007471"
  "u32_at short_container 180 = 0"
  "u32_at short_container 184 = 1"
  "u32_at short_container 188 = 200"
  "u32_at short_container 192 = 12"
  "u32_at short_container 196 = 1835295092"
  "u32_at short_container 200 = 16909060"
  by (simp_all add: short_container_def u32_at_def be32_def)

lemma payload_audio:
  "take 10 (drop 208 audio_container) = [1, 2, 3, 4, 5, 6, 7, 8, 9, 10]"
  "take 10 (drop 218 audio_container) = [11, 12, 13, 14, 15, 16, 17, 18, 19, 20]"
  "take 10 (drop 228 audio_container) = [21, 22, 23, 24, 25, 26, 27, 28, 29, 30]"
  "take 10 (drop 238 audio_container) = [31, 32, 33, 34, 35, 36, 37, 38, 39, 40]"
  "take 10 (drop 248 audio_container) = [41, 42, 43, 44, 45, 46, 47, 48, 49, 50]"
  "take 10 (drop 258 audio_container) = [51, 52, 53, 54, 55, 56, 57, 58, 59, 60]"
  by (simp_all add: audio_container_def)

lemma payload_video:
  "take 4 (drop 148 video_container) = [1, 2, 3, 4]"
  by (simp_all add: video_container_def)

lemma payload_short:
  "take 10 (drop 200 short_container) = [1, 2, 3, 4]"
  by (simp_all add: short_container_def)

lemma open_audio:
  "open (Some \<lparr> contents = audio_container, position = 0 \<rparr>) False new_parser
     = (True, parser_on audio_container 192 (124, 172, 144, 208) (0, 1, 0, 2, 208))"
  by (simp add: eval_rules length_audio words_audio cong: let_weak_cong prod.case_cong_weak)

lemma open_video:
  "open (Some \<lparr> contents = video_container, position = 0 \<rparr>) False new_parser
     = (True, parser_on video_container 140 (72, 120, 92, 148) (0, 1, 0, 1, 148))"
  by (simp add: eval_rules length_video words_video cong: let_weak_cong prod.case_cong_weak)

lemma open_short:
  "open (Some \<lparr> contents = short_container, position = 0 \<rparr>) False new_parser
     = (True, parser_on short_container 192 (124, 172, 144, 200) (0, 1, 0, 1, 200))"
  by (simp add: eval_rules length_short words_short cong: let_weak_cong prod.case_cong_weak)

lemma frame_video:
  "readNextFrame 64 (parser_on video_container q (72, 120, 92, 148) (0, 1, 0, 1, 148))
     = (11, [255, 241, 80, 128, 1, 127, 252, 1, 2, 3, 4],
        parser_on video_container 152 (72, 120, 92, 148) (1, 1, 1, 1, 152))"
  by (simp add: frame_rules length_video words_video payload_video generateAdtsHeader_def freqIdx_def
      cong: let_weak_cong prod.case_cong_weak)

lemma frame_short:
  "readNextFrame 64 (parser_on short_container q (124, 172, 144, 200) (0, 1, 0, 1, 200))
     = (17, [255, 241, 80, 128, 2, 63, 252, 1, 2, 3, 4],
        parser_on short_container 204 (124, 172, 144, 200) (1, 1, 1, 1, 210))"
  by (simp add: frame_rules length_short words_short payload_short generateAdtsHeader_def freqIdx_def
      cong: let_weak_cong prod.case_cong_weak)

section \<open>Properties of frame extraction\<close>

lemma nextChunk_fields:
  "currentSample (nextChunk p) = currentSample p"
  "currentChunk (nextChunk p) = currentChunk p + 1"
  "samplesReadInChunk (nextChunk p) = 0"
  "currentOffset (nextChunk p) = stcoEntry p (currentChunk p + 1)"
  "contents (activeFile (nextChunk p)) = contents (activeFile p)"
  "stszOffset (nextChunk p) = stszOffset p"
  "stcoOffset (nextChunk p) = stcoOffset p"
  "stscOffset (nextChunk p) = stscOffset p"
  "sampleRate (nextChunk p) = sampleRate p"
  "channels (nextChunk p) = channels p"
proof -
  let ?P = "(repos (past (contents (activeFile p)) 4 (unat (stscOffset p + 12))) p)
          \<lparr> currentChunk := currentChunk p + 1, samplesReadInChunk := 0,
            currentOffset := u32_at (contents (activeFile p))
                               (unat (stcoOffset p + 16 + (currentChunk p + 1 - 1) * 4)) \<rparr>"
  obtain q v where "nextChunk p = repos q (?P \<lparr> samplesInCurrentChunk := v \<rparr>)"
    using stscLoop_frame [of "u32_at (contents (activeFile p)) (unat (stscOffset p + 12))" 0 ?P]
    unfolding nextChunk_eq by blast
  then show
    "currentSample (nextChunk p) = currentSample p"
    "currentChunk (nextChunk p) = currentChunk p + 1"
    "samplesReadInChunk (nextChunk p) = 0"
    "currentOffset (nextChunk p) = stcoEntry p (currentChunk p + 1)"
    "contents (activeFile (nextChunk p)) = contents (activeFile p)"
    "stszOffset (nextChunk p) = stszOffset p"
    "stcoOffset (nextChunk p) = stcoOffset p"
    "stscOffset (nextChunk p) = stscOffset p"
    "sampleRate (nextChunk p) = sampleRate p"
    "channels (nextChunk p) = channels p"
    by (simp_all add: repos_fields stcoEntry_def io_simps)
qed

lemma unat_plus7: "unat (w :: u32) + 7 < 2 ^ 32 \<Longrightarrow> unat (w + 7) = unat w + 7"
  using unat_add_lem [of w 7] by simp

lemma chunkStep_sample: "currentSample (chunkStep p) = currentSample p"
  by (simp add: chunkStep_def nextChunk_fields)

text \<open>
  C8, as stated, fails where the read of the frame fails: in a file that ends 4 bytes into
  a frame declared with 10 bytes, the library delivers 4 bytes, and \<open>readNextFrame\<close>
  still returns 17 and advances the cursor.
\<close>

theorem readNextFrame_zero_paths_counterexample:
  "take 10 (drop 200 short_container) = [1, 2, 3, 4]
   \<and> open (Some \<lparr> contents = short_container, position = 0 \<rparr>) False new_parser
        = (True, opened short_container)
   \<and> fst (readNextFrame 64 (opened short_container)) = 17
   \<and> fst (snd (readNextFrame 64 (opened short_container)))
        = [255, 241, 80, 128, 2, 63, 252, 1, 2, 3, 4]
   \<and> currentSample (snd (snd (readNextFrame 64 (opened short_container)))) = 1
   \<and> currentSample (opened short_container) = 0"
  by (simp add: opened_def open_short frame_short payload_short) (simp add: parser_on_def)

text \<open>
  C8, amended. \<open>readNextFrame\<close> returns 0, writes nothing and leaves the playback cursor
  (\<open>currentSample\<close>, \<open>currentChunk\<close>, \<open>samplesReadInChunk\<close>, \<open>samplesInCurrentChunk\<close>,
  \<open>currentOffset\<close>) unchanged when no sample-size table was located (\<open>stszOffset\<close> is 0),
  when the current sample number has reached the sample count stored in the table, and
  when the frame size plus the 7 header bytes exceeds \<open>bufferSize\<close>. In every other case it
  returns the frame size plus 7, which is not 0, and advances \<open>currentSample\<close>, whatever the
  read of the frame delivers: there is no read-error path. Wherever the frame size plus 7
  fits 32 bits, a call that returns 0 leaves the cursor unchanged.
\<close>

theorem readNextFrame_zero_paths:
  "(stszOffset p = 0 \<or> stszCount p \<le> currentSample p
      \<or> unat bufferSize < unat (nextFrameSize p) + 7 \<and> unat (nextFrameSize p) + 7 < 2 ^ 32
     \<longrightarrow> fst (readNextFrame bufferSize p) = 0 \<and> fst (snd (readNextFrame bufferSize p)) = []
         \<and> cursor (snd (snd (readNextFrame bufferSize p))) = cursor p)
   \<and> (stszOffset p \<noteq> 0 \<and> currentSample p < stszCount p
        \<and> unat (nextFrameSize p) + 7 \<le> unat bufferSize
     \<longrightarrow> fst (readNextFrame bufferSize p) = nextFrameSize p + 7
         \<and> fst (readNextFrame bufferSize p) \<noteq> 0
         \<and> currentSample (snd (snd (readNextFrame bufferSize p))) = currentSample p + 1)
   \<and> (fst (readNextFrame bufferSize p) = 0 \<and> unat (nextFrameSize p) + 7 < 2 ^ 32
     \<longrightarrow> cursor (snd (snd (readNextFrame bufferSize p))) = cursor p)"
proof -
  have big: "bufferSize < nextFrameSize p + 7"
    if "unat bufferSize < unat (nextFrameSize p) + 7" "unat (nextFrameSize p) + 7 < 2 ^ 32"
    using that by (simp add: word_less_nat_alt unat_plus7)
  have fits: "\<not> bufferSize < nextFrameSize p + 7 \<and> nextFrameSize p + 7 \<noteq> 0"
    if "unat (nextFrameSize p) + 7 \<le> unat bufferSize"
  proof -
    have "unat bufferSize < 2 ^ 32" using unsigned_less [of bufferSize, where ?'a = nat] by simp
    with that have n: "unat (nextFrameSize p) + 7 < 2 ^ 32" by simp
    then have "unat (nextFrameSize p + 7) = unat (nextFrameSize p) + 7" by (rule unat_plus7)
    with that show ?thesis by (auto simp: word_less_nat_alt unat_eq_zero [symmetric] simp del: unat_eq_zero)
  qed
  have one: "stszOffset p = 0 \<or> stszCount p \<le> currentSample p
      \<or> unat bufferSize < unat (nextFrameSize p) + 7 \<and> unat (nextFrameSize p) + 7 < 2 ^ 32
     \<longrightarrow> fst (readNextFrame bufferSize p) = 0 \<and> fst (snd (readNextFrame bufferSize p)) = []
         \<and> cursor (snd (snd (readNextFrame bufferSize p))) = cursor p"
    using rnf_rejects [of p bufferSize] big by blast
  have two: "stszOffset p \<noteq> 0 \<and> currentSample p < stszCount p
        \<and> unat (nextFrameSize p) + 7 \<le> unat bufferSize
     \<longrightarrow> fst (readNextFrame bufferSize p) = nextFrameSize p + 7
         \<and> fst (readNextFrame bufferSize p) \<noteq> 0
         \<and> currentSample (snd (snd (readNextFrame bufferSize p))) = currentSample p + 1"
    using rnf_accepts [of p bufferSize] fits by (auto simp: chunkStep_sample)
  have three: "fst (readNextFrame bufferSize p) = 0 \<and> unat (nextFrameSize p) + 7 < 2 ^ 32
     \<longrightarrow> cursor (snd (snd (readNextFrame bufferSize p))) = cursor p"
  proof (intro impI, elim conjE)
    assume z: "fst (readNextFrame bufferSize p) = 0" and n: "unat (nextFrameSize p) + 7 < 2 ^ 32"
    show "cursor (snd (snd (readNextFrame bufferSize p))) = cursor p"
    proof (cases "stszOffset p = 0 \<or> stszCount p \<le> currentSample p \<or> bufferSize < nextFrameSize p + 7")
      case True
      then show ?thesis using rnf_rejects [of p bufferSize] by blast
    next
      case False
      then have "fst (readNextFrame bufferSize p) = nextFrameSize p + 7"
        using rnf_accepts [of p bufferSize] by (auto simp: not_le)
      moreover have "unat (nextFrameSize p + 7) = unat (nextFrameSize p) + 7" using n by (rule unat_plus7)
      then have "nextFrameSize p + 7 \<noteq> 0" by (auto simp: unat_eq_zero [symmetric] simp del: unat_eq_zero)
      ultimately show ?thesis using z by simp
    qed
  qed
  from one two three show ?thesis by blast
qed

lemma opened_audio: "opened audio_container = parser_on audio_container 192 (124, 172, 144, 208) (0, 1, 0, 2, 208)"
  by (simp add: opened_def open_audio)

lemma opened_video: "opened video_container = parser_on video_container 140 (72, 120, 92, 148) (0, 1, 0, 1, 148)"
  by (simp add: opened_def open_video)

lemma opened_short: "opened short_container = parser_on short_container 192 (124, 172, 144, 200) (0, 1, 0, 1, 200)"
  by (simp add: opened_def open_short)

lemmas table_rules = stszCount_def stszDefaultSize_def nextFrameSize_def stcoEntry_def
  seek_eq readUI32BE_eq repos_def past_in_range parser_on_def

lemma stsz_audio:
  "stszCount (parser_on audio_container q (124, 172, 144, 208) cur) = 6"
  "nextFrameSize (parser_on audio_container q (124, 172, 144, 208) cur) = 10"
  by (simp_all add: table_rules length_audio words_audio split: prod.split)

theorem readNextFrame_zero_paths_witness:
  "stszOffset (opened audio_container) \<noteq> 0
   \<and> currentSample (opened audio_container) < stszCount (opened audio_container)
   \<and> unat (nextFrameSize (opened audio_container)) + 7 \<le> unat (64 :: u32)
   \<and> fst (readNextFrame 64 (opened audio_container)) = 17
   \<and> unat (16 :: u32) < unat (nextFrameSize (opened audio_container)) + 7
   \<and> unat (nextFrameSize (opened audio_container)) + 7 < 2 ^ 32
   \<and> fst (readNextFrame 16 (opened audio_container)) = 0
   \<and> cursor (snd (snd (readNextFrame 16 (opened audio_container)))) = cursor (opened audio_container)"
  using readNextFrame_zero_paths [of "opened audio_container" 64]
    readNextFrame_zero_paths [of "opened audio_container" 16]
  by (simp add: opened_audio stsz_audio) (simp add: parser_on_def)

section \<open>Acceptance of tracks by open\<close>

text \<open>
  C2 says that \<open>open\<close> returns true only for a file with an audio-typed track whose three
  table offsets were found. \<open>parseTrak\<close> makes that check and \<open>parseMoov\<close> returns its
  result, but \<open>open\<close> discards the result of \<open>parseMoov\<close> and tests only \<open>moovFound\<close> and
  the three offsets, which \<open>parseTrak\<close> leaves set for a track it has just rejected. On
  the file below, whose only track has the handler subtype \<open>vide\<close> (bytes 40 to 43),
  \<open>open\<close> returns true, and \<open>readNextFrame\<close> then hands out a frame of that track.
\<close>

theorem open_accepts_video_only_track:
  "u32_at video_container 40 = 0x76696465
   \<and> fst (open (Some \<lparr> contents = video_container, position = 0 \<rparr>) False new_parser) = True
   \<and> fst (readNextFrame 64 (opened video_container)) = 11"
  by (simp add: words_video open_video opened_video frame_video)

section \<open>Termination of the box scan\<close>

lemma stblLoop_bound: "fst (stblLoop e c p) \<le> max c 100"
proof (induction "100 - c" arbitrary: c p rule: less_induct)
  case less
  show ?case
  proof (cases "getPos p < e \<and> c < 100")
    case False
    then show ?thesis by (simp add: stblLoop_stop)
  next
    case True
    then have m: "max c 100 = 100" by simp
    have lt: "100 - (c + 1) < 100 - c" using True by arith
    have step: "fst (stblLoop e (Suc c) p') \<le> 100" for p'
      using less [OF lt, of p'] True by simp
    show ?thesis
      using True unfolding m by (simp add: stblLoop_go Let_def split_beta step)
  qed
qed

lemma minfLoop_bound: "fst (minfLoop e c p) \<le> max c 100"
proof (induction "100 - c" arbitrary: c p rule: less_induct)
  case less
  show ?case
  proof (cases "getPos p < e \<and> c < 100")
    case False
    then show ?thesis by (simp add: minfLoop_stop)
  next
    case True
    then have m: "max c 100 = 100" by simp
    have lt: "100 - (c + 1) < 100 - c" using True by arith
    have step: "fst (minfLoop e (Suc c) p') \<le> 100" for p'
      using less [OF lt, of p'] True by simp
    show ?thesis
      using True unfolding m by (simp add: minfLoop_go Let_def split_beta step)
  qed
qed

lemma mdiaLoop_bound: "fst (mdiaLoop e c a p) \<le> max c 100"
proof (induction "100 - c" arbitrary: c a p rule: less_induct)
  case less
  show ?case
  proof (cases "getPos p < e \<and> c < 100")
    case False
    then show ?thesis by (simp add: mdiaLoop_stop)
  next
    case True
    then have m: "max c 100 = 100" by simp
    have lt: "100 - (c + 1) < 100 - c" using True by arith
    have step: "fst (mdiaLoop e (Suc c) a' p') \<le> 100" for a' p'
      using less [OF lt, of a' p'] True by simp
    show ?thesis
      using True unfolding m by (simp add: mdiaLoop_go Let_def split_beta step)
  qed
qed

lemma trakLoop_bound: "fst (trakLoop e c a p) \<le> max c 500"
proof (induction "500 - c" arbitrary: c a p rule: less_induct)
  case less
  show ?case
  proof (cases "getPos p < e \<and> c < 500")
    case False
    then show ?thesis by (simp add: trakLoop_stop)
  next
    case True
    then have m: "max c 500 = 500" by simp
    have lt: "500 - (c + 1) < 500 - c" using True by arith
    have step: "fst (trakLoop e (Suc c) a' p') \<le> 500" for a' p'
      using less [OF lt, of a' p'] True by simp
    show ?thesis
      using True unfolding m by (simp add: trakLoop_go Let_def split_beta step)
  qed
qed

lemma moovLoop_bound: "fst (moovLoop e c p) \<le> max c 500"
proof (induction "500 - c" arbitrary: c p rule: less_induct)
  case less
  show ?case
  proof (cases "getPos p < e \<and> c < 500")
    case False
    then show ?thesis by (simp add: moovLoop_stop)
  next
    case True
    then have m: "max c 500 = 500" by simp
    have lt: "500 - (c + 1) < 500 - c" using True by arith
    have step: "fst (moovLoop e (Suc c) p') \<le> 500" for p'
      using less [OF lt, of p'] True by simp
    show ?thesis
      using True unfolding m by (simp add: moovLoop_go Let_def split_beta step)
  qed
qed

lemma openLoop_bound: "fst (openLoop fs pos c mf p) \<le> max c 1000"
proof (induction "1000 - c" arbitrary: pos c mf p rule: less_induct)
  case less
  show ?case
  proof (cases "pos < fs \<and> c < 1000")
    case False
    then show ?thesis by (simp add: openLoop_stop)
  next
    case True
    then have m: "max c 1000 = 1000" by simp
    have lt: "1000 - (c + 1) < 1000 - c" using True by arith
    have step: "fst (openLoop fs pos' (Suc c) mf' p') \<le> 1000" for pos' mf' p'
      using less [OF lt, of pos' mf' p'] True by simp
    show ?thesis
      using True unfolding m by (simp add: openLoop_go Let_def split_beta step)
  qed
qed

lemma small_box_aborts:
  "getPos p < e \<and> n < 500 \<and> boxSize p < 8 \<Longrightarrow> moovLoop e n p = (n + 1, False, afterHeader p)"
  "getPos p < e \<and> n < 500 \<and> boxSize p < 8 \<Longrightarrow> trakLoop e n a p = (n + 1, a, afterHeader p)"
  "getPos p < e \<and> m < 100 \<and> boxSize p < 8 \<Longrightarrow> mdiaLoop e m a p = (m + 1, a, afterHeader p)"
  "getPos p < e \<and> m < 100 \<and> boxSize p < 8 \<Longrightarrow> minfLoop e m p = (m + 1, afterHeader p)"
  "getPos p < e \<and> m < 100 \<and> boxSize p < 8 \<Longrightarrow> stblLoop e m p = (m + 1, afterHeader p)"
  by (simp_all add: moovLoop_go trakLoop_go mdiaLoop_go minfLoop_go stblLoop_go
      boxSize_def afterHeader_def split_beta)

lemma top_level_ends:
  "\<not> pos < fs \<Longrightarrow> openLoop fs pos n mf p = (n, mf, p)"
  "pos < fs \<and> n < 1000 \<and> boxSize (seek pos p) = 0 \<Longrightarrow>
     openLoop fs pos n mf p = (n + 1, mf, afterHeader (seek pos p))"
  "pos < fs \<and> n < 1000 \<and> 1 < boxSize (seek pos p) \<and> boxSize (seek pos p) < 8 \<Longrightarrow>
     openLoop fs pos n mf p = (n + 1, mf, afterHeader (seek pos p))"
proof -
  show "\<not> pos < fs \<Longrightarrow> openLoop fs pos n mf p = (n, mf, p)"
    by (simp add: openLoop_stop)
  show "pos < fs \<and> n < 1000 \<and> boxSize (seek pos p) = 0 \<Longrightarrow>
     openLoop fs pos n mf p = (n + 1, mf, afterHeader (seek pos p))"
    by (simp add: openLoop_go boxSize_def afterHeader_def split_beta Let_def)
  show "pos < fs \<and> n < 1000 \<and> 1 < boxSize (seek pos p) \<and> boxSize (seek pos p) < 8 \<Longrightarrow>
     openLoop fs pos n mf p = (n + 1, mf, afterHeader (seek pos p))"
  proof -
    assume a: "pos < fs \<and> n < 1000 \<and> 1 < boxSize (seek pos p) \<and> boxSize (seek pos p) < 8"
    then have "boxSize (seek pos p) \<noteq> 0" "boxSize (seek pos p) \<noteq> 1" by auto
    with a show ?thesis
      by (simp add: openLoop_go boxSize_def afterHeader_def split_beta Let_def)
  qed
qed

text \<open>
  C9. Every loop of the box scan is a total function (each is defined with a termination
  proof whose measure is the distance of the box counter from its ceiling), so \<open>open\<close>
  returns for every file. The counters, started at 0, end at no more than their ceilings:
  1000 for the top-level scan, 500 for the metadata box, 500 for a track, 100 for each of
  the three inner levels. The top-level scan ends at once when the position is not below
  the file size, and right after the header of a box that declares size 0 or a size from 2
  to 7; each nested loop ends right after the header of a box that declares a size below 8.
\<close>

theorem box_scan_is_bounded:
  "fst (openLoop fileSize pos 0 moovFound p) \<le> 1000
   \<and> fst (moovLoop endPos 0 p) \<le> 500
   \<and> fst (trakLoop endPos 0 isAudio p) \<le> 500
   \<and> fst (mdiaLoop endPos 0 isAudio p) \<le> 100
   \<and> fst (minfLoop endPos 0 p) \<le> 100
   \<and> fst (stblLoop endPos 0 p) \<le> 100
   \<and> (\<not> pos < fileSize \<longrightarrow> openLoop fileSize pos n moovFound p = (n, moovFound, p))
   \<and> (pos < fileSize \<and> n < 1000 \<and> boxSize (seek pos p) = 0 \<longrightarrow>
        openLoop fileSize pos n moovFound p = (n + 1, moovFound, afterHeader (seek pos p)))
   \<and> (pos < fileSize \<and> n < 1000 \<and> 1 < boxSize (seek pos p) \<and> boxSize (seek pos p) < 8 \<longrightarrow>
        openLoop fileSize pos n moovFound p = (n + 1, moovFound, afterHeader (seek pos p)))
   \<and> (getPos p < endPos \<and> n < 500 \<and> boxSize p < 8 \<longrightarrow>
        moovLoop endPos n p = (n + 1, False, afterHeader p))
   \<and> (getPos p < endPos \<and> n < 500 \<and> boxSize p < 8 \<longrightarrow>
        trakLoop endPos n isAudio p = (n + 1, isAudio, afterHeader p))
   \<and> (getPos p < endPos \<and> m < 100 \<and> boxSize p < 8 \<longrightarrow>
        mdiaLoop endPos m isAudio p = (m + 1, isAudio, afterHeader p))
   \<and> (getPos p < endPos \<and> m < 100 \<and> boxSize p < 8 \<longrightarrow>
        minfLoop endPos m p = (m + 1, afterHeader p))
   \<and> (getPos p < endPos \<and> m < 100 \<and> boxSize p < 8 \<longrightarrow>
        stblLoop endPos m p = (m + 1, afterHeader p))"
  using openLoop_bound [of fileSize pos 0 moovFound p] moovLoop_bound [of endPos 0 p]
    trakLoop_bound [of endPos 0 isAudio p] mdiaLoop_bound [of endPos 0 isAudio p]
    minfLoop_bound [of endPos 0 p] stblLoop_bound [of endPos 0 p]
  by (simp add: top_level_ends small_box_aborts)

lemma scan_audio_32:
  "getPos (parser_on audio_container 32 tabs cur) = 32"
  "boxSize (parser_on audio_container 32 tabs cur) = 0"
  "boxSize (seek 32 (parser_on audio_container q tabs cur)) = 0"
  "boxSize (seek 140 (parser_on audio_container q tabs cur)) = 6"
  by (simp_all add: getPos_def boxSize_def readUI32BE_eq seek_eq repos_def parser_on_def words_audio
      split: prod.split)

theorem box_scan_is_bounded_witness:
  "fst (openLoop 268 0 0 False (parser_on audio_container 32 (0, 0, 0, 0) (0, 1, 0, 0, 0))) \<le> 1000
   \<and> openLoop 268 268 0 False (parser_on audio_container 32 (0, 0, 0, 0) (0, 1, 0, 0, 0))
        = (0, False, parser_on audio_container 32 (0, 0, 0, 0) (0, 1, 0, 0, 0))
   \<and> boxSize (seek 32 (parser_on audio_container 32 (0, 0, 0, 0) (0, 1, 0, 0, 0))) = 0
   \<and> fst (openLoop 268 32 0 False (parser_on audio_container 32 (0, 0, 0, 0) (0, 1, 0, 0, 0))) = 1
   \<and> boxSize (seek 140 (parser_on audio_container 32 (0, 0, 0, 0) (0, 1, 0, 0, 0))) = 6
   \<and> fst (openLoop 268 140 0 False (parser_on audio_container 32 (0, 0, 0, 0) (0, 1, 0, 0, 0))) = 1
   \<and> getPos (parser_on audio_container 32 (0, 0, 0, 0) (0, 1, 0, 0, 0)) < 200
   \<and> boxSize (parser_on audio_container 32 (0, 0, 0, 0) (0, 1, 0, 0, 0)) < 8
   \<and> fst (moovLoop 200 0 (parser_on audio_container 32 (0, 0, 0, 0) (0, 1, 0, 0, 0))) = 1
   \<and> fst (trakLoop 200 0 False (parser_on audio_container 32 (0, 0, 0, 0) (0, 1, 0, 0, 0))) = 1
   \<and> fst (mdiaLoop 200 0 False (parser_on audio_container 32 (0, 0, 0, 0) (0, 1, 0, 0, 0))) = 1
   \<and> fst (minfLoop 200 0 (parser_on audio_container 32 (0, 0, 0, 0) (0, 1, 0, 0, 0))) = 1
   \<and> fst (stblLoop 200 0 (parser_on audio_container 32 (0, 0, 0, 0) (0, 1, 0, 0, 0))) = 1"
  using
    box_scan_is_bounded [where fileSize = 268 and pos = 0 and moovFound = False and n = 0 and m = 0
      and endPos = 200 and isAudio = False
      and p = "parser_on audio_container 32 (0, 0, 0, 0) (0, 1, 0, 0, 0)"]
    box_scan_is_bounded [where fileSize = 268 and pos = 268 and moovFound = False and n = 0 and m = 0
      and endPos = 200 and isAudio = False
      and p = "parser_on audio_container 32 (0, 0, 0, 0) (0, 1, 0, 0, 0)"]
    box_scan_is_bounded [where fileSize = 268 and pos = 32 and moovFound = False and n = 0 and m = 0
      and endPos = 200 and isAudio = False
      and p = "parser_on audio_container 32 (0, 0, 0, 0) (0, 1, 0, 0, 0)"]
    box_scan_is_bounded [where fileSize = 268 and pos = 140 and moovFound = False and n = 0 and m = 0
      and endPos = 200 and isAudio = False
      and p = "parser_on audio_container 32 (0, 0, 0, 0) (0, 1, 0, 0, 0)"]
  by (simp add: scan_audio_32)

section \<open>Crossing a chunk boundary\<close>

lemma unat_succ: "(i :: u32) < n \<Longrightarrow> unat (i + 1) = unat i + 1"
proof -
  assume lt: "i < n"
  have "unat n < 2 ^ 32" using unsigned_less [of n, where ?'a = nat] by simp
  moreover have "unat i < unat n" using lt by (simp add: word_less_nat_alt)
  ultimately have "unat i + 1 < 2 ^ 32" by simp
  then show ?thesis by (simp add: unat_add_lem [THEN iffD1])
qed

lemma stscLoop_scan:
  assumes "position (activeFile p) = a + 16 + 12 * unat i"
    and "a + 16 + 12 * unat n \<le> length (contents (activeFile p))"
    and "i \<le> n"
  shows "samplesInCurrentChunk (stscLoop n i p)
           = stsc_scan (currentChunk p) (samplesInCurrentChunk p)
               (map (\<lambda>k. (u32_at (contents (activeFile p)) (a + 16 + 12 * k),
                           u32_at (contents (activeFile p)) (a + 20 + 12 * k)))
                    [unat i ..< unat n])"
  using assms
proof (induction "unat n - unat i" arbitrary: i p rule: less_induct)
  case less
  let ?cs = "contents (activeFile p)"
  let ?q = "a + 16 + 12 * unat i"
  show ?case
  proof (cases "i < n")
    case False
    with less.prems(3) have "i = n" by simp
    then show ?thesis by (simp add: stscLoop_stop)
  next
    case True
    then have lt: "unat i < unat n" by (simp add: word_less_nat_alt)
    have suc: "unat (i + 1) = unat i + 1" using True by (rule unat_succ)
    have rng: "?q + 12 \<le> length ?cs" using lt less.prems(2) by simp
    let ?p3 = "repos (?q + 12) p"
    have r1: "readUI32BE p = (u32_at ?cs ?q, repos (?q + 4) p)"
      using rng less.prems(1) by (simp add: readUI32BE_eq past_in_range)
    have r2: "readUI32BE (repos (?q + 4) p) = (u32_at ?cs (?q + 4), repos (?q + 8) p)"
      using rng by (simp add: io_simps past_in_range)
    have r3: "readUI32BE (repos (?q + 8) p) = (u32_at ?cs (?q + 8), ?p3)"
      using rng by (simp add: io_simps past_in_range)
    have up: "[unat i ..< unat n] = unat i # [unat (i + 1) ..< unat n]"
      using lt suc by (simp add: upt_conv_Cons)
    have go: "stscLoop n i p =
        (if u32_at ?cs ?q > currentChunk p then ?p3
         else stscLoop n (i + 1) (?p3 \<lparr> samplesInCurrentChunk := u32_at ?cs (?q + 4) \<rparr>))"
      using stscLoop_step [OF True r1 r2 r3] by (simp add: repos_fields)
    show ?thesis
    proof (cases "u32_at ?cs ?q > currentChunk p")
      case True
      then show ?thesis by (simp add: go up repos_fields add.assoc)
    next
      case False
      let ?p' = "?p3 \<lparr> samplesInCurrentChunk := u32_at ?cs (?q + 4) \<rparr>"
      have m: "unat n - unat (i + 1) < unat n - unat i" using lt suc by simp
      have pos': "position (activeFile ?p') = a + 16 + 12 * unat (i + 1)"
        by (simp add: repos_fields suc)
      have cs': "a + 16 + 12 * unat n \<le> length (contents (activeFile ?p'))"
        using less.prems(2) by (simp add: repos_fields)
      have le': "i + 1 \<le> n" using True by (simp add: inc_le)
      from less.hyps [OF m pos' cs' le'] False show ?thesis
        by (simp add: go up repos_fields add.assoc)
    qed
  qed
qed

lemma filter_beyond:
  "sorted (map fst rs) \<Longrightarrow> \<forall>r \<in> set rs. (c :: u32) < fst r \<Longrightarrow> filter (\<lambda>r. fst r \<le> c) rs = []"
  by (induction rs) auto

lemma stsc_scan_sorted:
  "sorted (map fst rs) \<Longrightarrow> stsc_scan c v rs = run_for_chunk c v rs"
proof (induction rs arbitrary: v)
  case Nil
  then show ?case by (simp add: run_for_chunk_def)
next
  case (Cons r rs)
  obtain fc sp where r: "r = (fc, sp)" by (cases r)
  from Cons.prems have srt: "sorted (map fst rs)" and ge: "\<forall>x \<in> set rs. fc \<le> fst x"
    by (auto simp: r)
  show ?case
  proof (cases "fc > c")
    case True
    then have "\<forall>x \<in> set rs. c < fst x" using ge by auto
    then have "filter (\<lambda>r. fst r \<le> c) rs = []" by (rule filter_beyond [OF srt])
    moreover have "\<not> fc \<le> c" using True by simp
    ultimately show ?thesis using True by (simp add: r run_for_chunk_def)
  next
    case False
    then have le: "fc \<le> c" by simp
    have "run_for_chunk c v (r # rs) = run_for_chunk c sp rs"
      using le by (simp add: r run_for_chunk_def split: list.splits)
    with Cons.IH [OF srt, of sp] False show ?thesis by (simp add: r)
  qed
qed

lemma nextChunk_scan:
  assumes "length (contents (activeFile p)) < 2 ^ 32"
    and "unat (stscOffset p) + 16 + 12 * length (stscRuns p) \<le> length (contents (activeFile p))"
  shows "samplesInCurrentChunk (nextChunk p)
           = stsc_scan (currentChunk p + 1) (samplesInCurrentChunk p) (stscRuns p)"
proof -
  let ?cs = "contents (activeFile p)"
  let ?a = "unat (stscOffset p)"
  let ?n = "u32_at ?cs (?a + 12)"
  have len: "length (stscRuns p) = unat ?n" by (simp add: stscRuns_def Let_def)
  have a16: "?a + 16 \<le> length ?cs" using assms(2) by simp
  then have "?a + 12 < 2 ^ 32" using assms(1) by simp
  then have u12: "unat (stscOffset p + 12) = ?a + 12"
    using unat_add_lem [of "stscOffset p" 12] by simp
  let ?P = "(repos (past ?cs 4 (unat (stscOffset p + 12))) p)
          \<lparr> currentChunk := currentChunk p + 1, samplesReadInChunk := 0,
            currentOffset := u32_at ?cs (unat (stcoOffset p + 16 + (currentChunk p + 1 - 1) * 4)) \<rparr>"
  have nc: "nextChunk p = stscLoop ?n 0 ?P"
    by (simp add: nextChunk_eq u12)
  have pos: "position (activeFile ?P) = ?a + 16 + 12 * unat (0 :: u32)"
    using a16 by (simp add: repos_fields u12 past_in_range)
  have rng: "?a + 16 + 12 * unat ?n \<le> length (contents (activeFile ?P))"
    using assms(2) len by (simp add: repos_fields)
  from stscLoop_scan [OF pos rng] show ?thesis
    by (simp add: nc repos_fields stscRuns_def Let_def)
qed

lemma stcoEntry_eq:
  "stcoEntry p chunk
     = u32_at (contents (activeFile p)) (unat (stcoOffset p + 16 + (chunk - 1) * 4))"
  by (simp add: stcoEntry_def io_simps)

lemma run_for_chunk_Cons:
  "fc \<le> c \<Longrightarrow> run_for_chunk c v ((fc, sp) # rs) = run_for_chunk c sp rs"
  by (simp add: run_for_chunk_def split: list.splits)

lemma stsc_scan_prefix:
  "stsc_scan c v rs = run_for_chunk c v (takeWhile (\<lambda>r. fst r \<le> c) rs)"
proof (induction rs arbitrary: v)
  case Nil
  then show ?case by (simp add: run_for_chunk_def)
next
  case (Cons r rs)
  obtain fc sp where r: "r = (fc, sp)" by (cases r)
  show ?case
  proof (cases "fc \<le> c")
    case True
    then have "\<not> c < fc" by simp
    with True show ?thesis using Cons.IH [of sp] by (simp add: r run_for_chunk_Cons)
  next
    case False
    then have lt: "c < fc" by simp
    have "takeWhile (\<lambda>r. fst r \<le> c) (r # rs) = []" using False by (simp add: r)
    then have "run_for_chunk c v (takeWhile (\<lambda>r. fst r \<le> c) (r # rs)) = v"
      by (simp only: run_for_chunk_def filter.simps list.case)
    then show ?thesis using lt by (simp only: r stsc_scan.simps if_True)
  qed
qed

lemma crossing_state:
  assumes ok: "fst (readNextFrame bufferSize p) \<noteq> 0"
    and boundary: "samplesInCurrentChunk p \<le> samplesReadInChunk p"
    and size: "length (contents (activeFile p)) < 2 ^ 32"
    and table: "unat (stscOffset p) + 16 + 12 * length (stscRuns p)
                  \<le> length (contents (activeFile p))"
  shows "currentChunk (snd (snd (readNextFrame bufferSize p))) = currentChunk p + 1"
    and "samplesReadInChunk (snd (snd (readNextFrame bufferSize p))) = 1"
    and "currentOffset (snd (snd (readNextFrame bufferSize p)))
         = u32_at (contents (activeFile p))
             (unat (stcoOffset p + 16 + ((currentChunk p + 1) - 1) * 4)) + nextFrameSize p"
    and "fst (snd (readNextFrame bufferSize p))
         = generateAdtsHeader (sint (nextFrameSize p + 7)) 2 (sint (sampleRate p))
               (uint (channels p))
           @ take (unat (nextFrameSize p))
               (drop (unat (u32_at (contents (activeFile p))
                        (unat (stcoOffset p + 16 + ((currentChunk p + 1) - 1) * 4))))
                  (contents (activeFile p)))"
    and "samplesInCurrentChunk (snd (snd (readNextFrame bufferSize p)))
         = stsc_scan (currentChunk p + 1) (samplesInCurrentChunk p) (stscRuns p)"
proof -
  have nr: "\<not> (stszOffset p = 0 \<or> stszCount p \<le> currentSample p
              \<or> bufferSize < nextFrameSize p + 7)"
    using rnf_rejects [of p bufferSize] ok by blast
  then have a: "stszOffset p \<noteq> 0" "currentSample p < stszCount p"
    "\<not> bufferSize < nextFrameSize p + 7"
    by (auto simp: not_le)
  have cs: "chunkStep p = nextChunk p" using boundary by (simp add: chunkStep_def)
  note sc = nextChunk_scan [OF size table]
  show "currentChunk (snd (snd (readNextFrame bufferSize p))) = currentChunk p + 1"
    unfolding rnf_accepts [OF a] cs by (simp add: nextChunk_fields repos_fields)
  show "samplesReadInChunk (snd (snd (readNextFrame bufferSize p))) = 1"
    unfolding rnf_accepts [OF a] cs by (simp add: nextChunk_fields repos_fields)
  show "currentOffset (snd (snd (readNextFrame bufferSize p)))
         = u32_at (contents (activeFile p))
             (unat (stcoOffset p + 16 + ((currentChunk p + 1) - 1) * 4)) + nextFrameSize p"
    unfolding rnf_accepts [OF a] cs by (simp add: nextChunk_fields repos_fields stcoEntry_eq)
  show "fst (snd (readNextFrame bufferSize p))
         = generateAdtsHeader (sint (nextFrameSize p + 7)) 2 (sint (sampleRate p))
               (uint (channels p))
           @ take (unat (nextFrameSize p))
               (drop (unat (u32_at (contents (activeFile p))
                        (unat (stcoOffset p + 16 + ((currentChunk p + 1) - 1) * 4))))
                  (contents (activeFile p)))"
    unfolding rnf_accepts [OF a] cs by (simp add: nextChunk_fields repos_fields stcoEntry_eq)
  show "samplesInCurrentChunk (snd (snd (readNextFrame bufferSize p)))
         = stsc_scan (currentChunk p + 1) (samplesInCurrentChunk p) (stscRuns p)"
    unfolding rnf_accepts [OF a] cs by (simp add: repos_fields sc)
qed

subsection \<open>Two tracks with several runs\<close>

lemma length_stepped: "length stepped_container = 312" by (simp add: stepped_container_def)

lemma words_stepped:
  "u32_at stepped_container 0 = 224"
  "u32_at stepped_container 4 = 1836019574"
  "u32_at stepped_container 8 = 216"
  "u32_at stepped_container 12 = 1953653099"
  "u32_at stepped_container 16 = 208"
  "u32_at stepped_container 20 = 1835297121"
  "u32_at stepped_container 24 = 32"
  "u32_at stepped_container 28 = 1751411826"
  "u32_at stepped_container 32 = 0"
  "u32_at stepped_container 36 = 0"
  "u32_at stepped_container 40 = 1936684398"
  "u32_at stepped_container 44 = 0"
  "u32_at stepped_container 48 = 0"
  "u32_at stepped_container 52 = 0"
  "u32_at stepped_container 56 = 168"
  "u32_at stepped_container 60 = 1835626086"
  "u32_at stepped_container 64 = 160"
  "u32_at stepped_container 68 = 1937007212"
  "u32_at stepped_container 72 = 52"
  "u32_at stepped_container 76 = 1937011556"
  "u32_at stepped_container 80 = 0"
  "u32_at stepped_container 84 = 1"
  "u32_at stepped_container 88 = 36"
  "u32_at stepped_container 92 = 1836069985"
  "u32_at stepped_container 96 = 0"
  "u32_at stepped_container 100 = 1"
  "u32_at stepped_container 104 = 0"
  "u32_at stepped_container 108 = 0"
  "u32_at stepped_container 112 = 131088"
  "u32_at stepped_container 116 = 0"
  "u32_at stepped_container 120 = 2890137600"
  "u32_at stepped_container 124 = 20"
  "u32_at stepped_container 128 = 1937011578"
  "u32_at stepped_container 132 = 0"
  "u32_at stepped_container 136 = 10"
  "u32_at stepped_container 140 = 6"
  "u32_at stepped_container 144 = 52"
  "u32_at stepped_container 148 = 1937011555"
  "u32_at stepped_container 152 = 0"
  "u32_at stepped_container 156 = 3"
  "u32_at stepped_container 160 = 1"
  "u32_at stepped_container 164 = 2"
  "u32_at stepped_container 168 = 1"
  "u32_at stepped_container 172 = 2"
  "u32_at stepped_container 176 = 1"
  "u32_at stepped_container 180 = 1"
  "u32_at stepped_container 184 = 3"
  "u32_at stepped_container 188 = 3"
  "u32_at stepped_container 192 = 1"
  "u32_at stepped_container 196 = 28"
  "u32_at stepped_container 200 = 1937007471"
  "u32_at stepped_container 204 = 0"
  "u32_at stepped_container 208 = 3"
  "u32_at stepped_container 212 = 252"
  "u32_at stepped_container 216 = 232"
  "u32_at stepped_container 220 = 282"
  "u32_at stepped_container 224 = 88"
  "u32_at stepped_container 228 = 1835295092"
  by (simp_all add: stepped_container_def u32_at_def be32_def)

lemma payload_stepped:
  "take 10 (drop 232 stepped_container) = [1, 2, 3, 4, 5, 6, 7, 8, 9, 10]"
  "take 10 (drop 242 stepped_container) = [11, 12, 13, 14, 15, 16, 17, 18, 19, 20]"
  "take 10 (drop 252 stepped_container) = [21, 22, 23, 24, 25, 26, 27, 28, 29, 30]"
  "take 10 (drop 262 stepped_container) = [31, 32, 33, 34, 35, 36, 37, 38, 39, 40]"
  "take 10 (drop 282 stepped_container) = [51, 52, 53, 54, 55, 56, 57, 58, 59, 60]"
  "take 10 (drop 292 stepped_container) = [61, 62, 63, 64, 65, 66, 67, 68, 69, 70]"
  "take 10 (drop 302 stepped_container) = [71, 72, 73, 74, 75, 76, 77, 78, 79, 80]"
  by (simp_all add: stepped_container_def)

lemma length_jumbled: "length jumbled_container = 312" by (simp add: jumbled_container_def)

lemma words_jumbled:
  "u32_at jumbled_container 0 = 224"
  "u32_at jumbled_container 4 = 1836019574"
  "u32_at jumbled_container 8 = 216"
  "u32_at jumbled_container 12 = 1953653099"
  "u32_at jumbled_container 16 = 208"
  "u32_at jumbled_container 20 = 1835297121"
  "u32_at jumbled_container 24 = 32"
  "u32_at jumbled_container 28 = 1751411826"
  "u32_at jumbled_container 32 = 0"
  "u32_at jumbled_container 36 = 0"
  "u32_at jumbled_container 40 = 1936684398"
  "u32_at jumbled_container 44 = 0"
  "u32_at jumbled_container 48 = 0"
  "u32_at jumbled_container 52 = 0"
  "u32_at jumbled_container 56 = 168"
  "u32_at jumbled_container 60 = 1835626086"
  "u32_at jumbled_container 64 = 160"
  "u32_at jumbled_container 68 = 1937007212"
  "u32_at jumbled_container 72 = 52"
  "u32_at jumbled_container 76 = 1937011556"
  "u32_at jumbled_container 80 = 0"
  "u32_at jumbled_container 84 = 1"
  "u32_at jumbled_container 88 = 36"
  "u32_at jumbled_container 92 = 1836069985"
  "u32_at jumbled_container 96 = 0"
  "u32_at jumbled_container 100 = 1"
  "u32_at jumbled_container 104 = 0"
  "u32_at jumbled_container 108 = 0"
  "u32_at jumbled_container 112 = 131088"
  "u32_at jumbled_container 116 = 0"
  "u32_at jumbled_container 120 = 2890137600"
  "u32_at jumbled_container 124 = 20"
  "u32_at jumbled_container 128 = 1937011578"
  "u32_at jumbled_container 132 = 0"
  "u32_at jumbled_container 136 = 10"
  "u32_at jumbled_container 140 = 6"
  "u32_at jumbled_container 144 = 52"
  "u32_at jumbled_container 148 = 1937011555"
  "u32_at jumbled_container 152 = 0"
  "u32_at jumbled_container 156 = 3"
  "u32_at jumbled_container 160 = 1"
  "u32_at jumbled_container 164 = 2"
  "u32_at jumbled_container 168 = 1"
  "u32_at jumbled_container 172 = 9"
  "u32_at jumbled_container 176 = 8"
  "u32_at jumbled_container 180 = 1"
  "u32_at jumbled_container 184 = 2"
  "u32_at jumbled_container 188 = 1"
  "u32_at jumbled_container 192 = 1"
  "u32_at jumbled_container 196 = 28"
  "u32_at jumbled_container 200 = 1937007471"
  "u32_at jumbled_container 204 = 0"
  "u32_at jumbled_container 208 = 3"
  "u32_at jumbled_container 212 = 252"
  "u32_at jumbled_container 216 = 232"
  "u32_at jumbled_container 220 = 282"
  "u32_at jumbled_container 224 = 88"
  "u32_at jumbled_container 228 = 1835295092"
  by (simp_all add: jumbled_container_def u32_at_def be32_def)

lemma payload_jumbled:
  "take 10 (drop 232 jumbled_container) = [1, 2, 3, 4, 5, 6, 7, 8, 9, 10]"
  "take 10 (drop 242 jumbled_container) = [11, 12, 13, 14, 15, 16, 17, 18, 19, 20]"
  "take 10 (drop 252 jumbled_container) = [21, 22, 23, 24, 25, 26, 27, 28, 29, 30]"
  "take 10 (drop 262 jumbled_container) = [31, 32, 33, 34, 35, 36, 37, 38, 39, 40]"
  "take 10 (drop 282 jumbled_container) = [51, 52, 53, 54, 55, 56, 57, 58, 59, 60]"
  "take 10 (drop 292 jumbled_container) = [61, 62, 63, 64, 65, 66, 67, 68, 69, 70]"
  "take 10 (drop 302 jumbled_container) = [71, 72, 73, 74, 75, 76, 77, 78, 79, 80]"
  by (simp_all add: jumbled_container_def)

lemma open_stepped:
  "open (Some \<lparr> contents = stepped_container, position = 0 \<rparr>) False new_parser
     = (True, parser_on stepped_container 216 (124, 196, 144, 232) (0, 1, 0, 2, 252))"
  by (simp add: eval_rules length_stepped words_stepped cong: let_weak_cong prod.case_cong_weak)

lemma open_jumbled:
  "open (Some \<lparr> contents = jumbled_container, position = 0 \<rparr>) False new_parser
     = (True, parser_on jumbled_container 216 (124, 196, 144, 232) (0, 1, 0, 2, 252))"
  by (simp add: eval_rules length_jumbled words_jumbled cong: let_weak_cong prod.case_cong_weak)

lemma u32_order: "\<not> (2 :: u32) \<le> 1" "\<not> (6 :: u32) \<le> 1"
  by (simp_all add: word_le_nat_alt)

lemma frames_stepped:
  "readNextFrame 64 (parser_on stepped_container q (124, 196, 144, 232) (0, 1, 0, 2, 252))
     = (17, [255, 241, 80, 128, 2, 63, 252, 21, 22, 23, 24, 25, 26, 27, 28, 29, 30],
        parser_on stepped_container 262 (124, 196, 144, 232) (1, 1, 1, 2, 262))"
  "readNextFrame 64 (parser_on stepped_container q (124, 196, 144, 232) (1, 1, 1, 2, 262))
     = (17, [255, 241, 80, 128, 2, 63, 252, 31, 32, 33, 34, 35, 36, 37, 38, 39, 40],
        parser_on stepped_container 272 (124, 196, 144, 232) (2, 1, 2, 2, 272))"
  by (simp_all add: frame_rules length_stepped words_stepped payload_stepped u32_order generateAdtsHeader_def freqIdx_def
      cong: let_weak_cong prod.case_cong_weak)

lemma frames_jumbled:
  "readNextFrame 64 (parser_on jumbled_container q (124, 196, 144, 232) (0, 1, 0, 2, 252))
     = (17, [255, 241, 80, 128, 2, 63, 252, 21, 22, 23, 24, 25, 26, 27, 28, 29, 30],
        parser_on jumbled_container 262 (124, 196, 144, 232) (1, 1, 1, 2, 262))"
  "readNextFrame 64 (parser_on jumbled_container q (124, 196, 144, 232) (1, 1, 1, 2, 262))
     = (17, [255, 241, 80, 128, 2, 63, 252, 31, 32, 33, 34, 35, 36, 37, 38, 39, 40],
        parser_on jumbled_container 272 (124, 196, 144, 232) (2, 1, 2, 2, 272))"
  by (simp_all add: frame_rules length_jumbled words_jumbled payload_jumbled u32_order generateAdtsHeader_def freqIdx_def
      cong: let_weak_cong prod.case_cong_weak)

lemma stsz_stepped:
  "stszCount (parser_on stepped_container q (124, 196, 144, 232) cur) = 6"
  "nextFrameSize (parser_on stepped_container q (124, 196, 144, 232) cur) = 10"
  by (simp_all add: table_rules length_stepped words_stepped split: prod.split)

lemma stsz_jumbled:
  "stszCount (parser_on jumbled_container q (124, 196, 144, 232) cur) = 6"
  "nextFrameSize (parser_on jumbled_container q (124, 196, 144, 232) cur) = 10"
  by (simp_all add: table_rules length_jumbled words_jumbled split: prod.split)

lemma stscRuns_stepped:
  "stscRuns (parser_on stepped_container q (124, 196, 144, 232) cur) = [(1, 2), (2, 1), (3, 3)]"
  by (simp add: stscRuns_def parser_on_def words_stepped Let_def upt_conv_Cons split: prod.split)

lemma stscRuns_jumbled:
  "stscRuns (parser_on jumbled_container q (124, 196, 144, 232) cur) = [(1, 2), (9, 8), (2, 1)]"
  by (simp add: stscRuns_def parser_on_def words_jumbled Let_def upt_conv_Cons split: prod.split)

lemma opened_stepped:
  "opened stepped_container = parser_on stepped_container 216 (124, 196, 144, 232) (0, 1, 0, 2, 252)"
  by (simp add: opened_def open_stepped)

lemma opened_jumbled:
  "opened jumbled_container = parser_on jumbled_container 216 (124, 196, 144, 232) (0, 1, 0, 2, 252)"
  by (simp add: opened_def open_jumbled)

lemma two_calls_stepped:
  "after_calls 2 64 (opened stepped_container)
     = parser_on stepped_container 272 (124, 196, 144, 232) (2, 1, 2, 2, 272)"
  by (simp add: numeral_2_eq_2 opened_stepped frames_stepped)

lemma two_calls_jumbled:
  "after_calls 2 64 (opened jumbled_container)
     = parser_on jumbled_container 272 (124, 196, 144, 232) (2, 1, 2, 2, 272)"
  by (simp add: numeral_2_eq_2 opened_jumbled frames_jumbled)

lemma rnf_ok:
  assumes "stszOffset p \<noteq> 0" "currentSample p < stszCount p" "\<not> B < nextFrameSize p + 7"
  shows "fst (readNextFrame B p) = nextFrameSize p + 7"
  by (simp add: rnf_accepts [OF assms])

lemma third_call_jumbled:
  "fst (readNextFrame 64 (parser_on jumbled_container 272 (124, 196, 144, 232) (2, 1, 2, 2, 272))) = 17"
proof -
  let ?p = "parser_on jumbled_container 272 (124, 196, 144, 232) (2, 1, 2, 2, 272)"
  have "stszOffset ?p \<noteq> 0" "currentSample ?p < stszCount ?p" "\<not> 64 < nextFrameSize ?p + 7"
    by (simp_all add: stsz_jumbled) (simp_all add: parser_on_def)
  from rnf_ok [OF this] show ?thesis by (simp add: stsz_jumbled)
qed

lemma third_call_stepped:
  "fst (readNextFrame 64 (parser_on stepped_container 272 (124, 196, 144, 232) (2, 1, 2, 2, 272))) = 17"
proof -
  let ?p = "parser_on stepped_container 272 (124, 196, 144, 232) (2, 1, 2, 2, 272)"
  have "stszOffset ?p \<noteq> 0" "currentSample ?p < stszCount ?p" "\<not> 64 < nextFrameSize ?p + 7"
    by (simp_all add: stsz_stepped) (simp_all add: parser_on_def)
  from rnf_ok [OF this] show ?thesis by (simp add: stsz_stepped)
qed

lemma state_fields:
  "currentSample (parser_on cs q (a, b, c, d) (s, ch, r, n, off)) = s"
  "currentChunk (parser_on cs q (a, b, c, d) (s, ch, r, n, off)) = ch"
  "samplesReadInChunk (parser_on cs q (a, b, c, d) (s, ch, r, n, off)) = r"
  "samplesInCurrentChunk (parser_on cs q (a, b, c, d) (s, ch, r, n, off)) = n"
  "currentOffset (parser_on cs q (a, b, c, d) (s, ch, r, n, off)) = off"
  "stszOffset (parser_on cs q (a, b, c, d) (s, ch, r, n, off)) = a"
  "stcoOffset (parser_on cs q (a, b, c, d) (s, ch, r, n, off)) = b"
  "stscOffset (parser_on cs q (a, b, c, d) (s, ch, r, n, off)) = c"
  "contents (activeFile (parser_on cs q (a, b, c, d) (s, ch, r, n, off))) = cs"
  "sampleRate (parser_on cs q (a, b, c, d) (s, ch, r, n, off)) = 44100"
  "channels (parser_on cs q (a, b, c, d) (s, ch, r, n, off)) = 2"
  by (simp_all add: parser_on_def)

text \<open>
  C4, as stated, fails on a sample-to-chunk table whose first-chunk fields are not
  ascending. The file \<open>jumbled_container\<close> is opened and two frames are read, which
  exhausts chunk 1. The third call succeeds and moves to chunk 2. The table holds the runs
  (1, 2), (9, 8), (2, 1): the last run whose first chunk is not beyond 2 is (2, 1), with
  1 sample per chunk, but the scan stops at the run (9, 8) and the parser goes on with 2
  samples per chunk.
\<close>

theorem chunk_boundary_crossing_counterexample:
  "open (Some \<lparr> contents = jumbled_container, position = 0 \<rparr>) False new_parser
     = (True, opened jumbled_container)
   \<and> after_calls 2 64 (opened jumbled_container)
       = parser_on jumbled_container 272 (124, 196, 144, 232) (2, 1, 2, 2, 272)
   \<and> fst (readNextFrame 64 (after_calls 2 64 (opened jumbled_container))) = 17
   \<and> samplesInCurrentChunk (after_calls 2 64 (opened jumbled_container))
       \<le> samplesReadInChunk (after_calls 2 64 (opened jumbled_container))
   \<and> stscRuns (after_calls 2 64 (opened jumbled_container)) = [(1, 2), (9, 8), (2, 1)]
   \<and> currentChunk (snd (snd (readNextFrame 64 (after_calls 2 64 (opened jumbled_container))))) = 2
   \<and> run_for_chunk 2 2 [(1, 2), (9, 8), (2, 1)] = 1
   \<and> samplesInCurrentChunk
        (snd (snd (readNextFrame 64 (after_calls 2 64 (opened jumbled_container))))) = 2"
proof -
  let ?p = "parser_on jumbled_container 272 (124, 196, 144, 232) (2, 1, 2, 2, 272)"
  have ok: "fst (readNextFrame 64 ?p) \<noteq> 0" by (simp add: third_call_jumbled)
  have boundary: "samplesInCurrentChunk ?p \<le> samplesReadInChunk ?p" by (simp add: state_fields)
  have size: "length (contents (activeFile ?p)) < 2 ^ 32" by (simp add: state_fields length_jumbled)
  have table: "unat (stscOffset ?p) + 16 + 12 * length (stscRuns ?p) \<le> length (contents (activeFile ?p))"
    by (simp add: state_fields stscRuns_jumbled length_jumbled)
  note c = crossing_state [OF ok boundary size table]
  have r: "run_for_chunk 2 2 [(1, 2), (9, 8), (2, 1 :: u32)] = 1"
    by (simp add: run_for_chunk_def word_le_nat_alt)
  have s: "stsc_scan 2 2 [(1, 2), (9, 8), (2, 1 :: u32)] = 2"
    by (simp add: word_less_nat_alt)
  show ?thesis
    unfolding two_calls_jumbled
    using c(1) c(5) r s
    by (simp add: open_jumbled opened_jumbled third_call_jumbled state_fields stscRuns_jumbled)
qed

text \<open>
  C4, amended. Take a call of \<open>readNextFrame\<close> that succeeds (returns a non-zero count) in
  a state where the samples consumed in the current chunk have reached its
  samples-per-chunk, on a file below 4 GiB whose sample-to-chunk table lies inside the
  file. Then the chunk number is advanced by one; the in-chunk counter is reset to zero and
  counts the frame of this call, so it ends at 1; the frame is read at the offset stored in
  the chunk-offset table at byte \<open>16 + 4 * (chunk number - 1)\<close> of the box, and the cursor
  ends one frame size behind it; and the sample-to-chunk table is scanned from its first
  run up to, not including, the first run whose first chunk is beyond the new chunk number:
  the samples-per-chunk value becomes that of the last run scanned, and keeps its old value
  if none was scanned. Where the first-chunk fields of the table are ascending, that is the
  last run of the whole table whose first chunk is not beyond the new chunk number.
\<close>

theorem chunk_boundary_crossing:
  assumes ok: "fst (readNextFrame bufferSize p) \<noteq> 0"
    and boundary: "samplesInCurrentChunk p \<le> samplesReadInChunk p"
    and size: "length (contents (activeFile p)) < 2 ^ 32"
    and table: "unat (stscOffset p) + 16 + 12 * length (stscRuns p)
                  \<le> length (contents (activeFile p))"
  shows "currentChunk (snd (snd (readNextFrame bufferSize p))) = currentChunk p + 1
     \<and> samplesReadInChunk (snd (snd (readNextFrame bufferSize p))) = 0 + 1
     \<and> currentOffset (snd (snd (readNextFrame bufferSize p)))
         = u32_at (contents (activeFile p))
             (unat (stcoOffset p + 16 + ((currentChunk p + 1) - 1) * 4)) + nextFrameSize p
     \<and> fst (snd (readNextFrame bufferSize p))
         = generateAdtsHeader (sint (nextFrameSize p + 7)) 2 (sint (sampleRate p))
               (uint (channels p))
           @ take (unat (nextFrameSize p))
               (drop (unat (u32_at (contents (activeFile p))
                        (unat (stcoOffset p + 16 + ((currentChunk p + 1) - 1) * 4))))
                  (contents (activeFile p)))
     \<and> samplesInCurrentChunk (snd (snd (readNextFrame bufferSize p)))
         = run_for_chunk (currentChunk p + 1) (samplesInCurrentChunk p)
             (takeWhile (\<lambda>r. fst r \<le> currentChunk p + 1) (stscRuns p))
     \<and> (sorted (map fst (stscRuns p)) \<longrightarrow>
          samplesInCurrentChunk (snd (snd (readNextFrame bufferSize p)))
            = run_for_chunk (currentChunk p + 1) (samplesInCurrentChunk p) (stscRuns p))"
proof -
  note c = crossing_state [OF ok boundary size table]
  show ?thesis
  proof (intro conjI impI)
    show "samplesInCurrentChunk (snd (snd (readNextFrame bufferSize p)))
         = run_for_chunk (currentChunk p + 1) (samplesInCurrentChunk p)
             (takeWhile (\<lambda>r. fst r \<le> currentChunk p + 1) (stscRuns p))"
      by (simp only: c(5) stsc_scan_prefix)
  next
    assume "sorted (map fst (stscRuns p))"
    then show "samplesInCurrentChunk (snd (snd (readNextFrame bufferSize p)))
            = run_for_chunk (currentChunk p + 1) (samplesInCurrentChunk p) (stscRuns p)"
      by (simp only: c(5) stsc_scan_sorted)
  qed (simp_all add: c)
qed

theorem chunk_boundary_crossing_witness:
  "after_calls 2 64 (opened stepped_container)
       = parser_on stepped_container 272 (124, 196, 144, 232) (2, 1, 2, 2, 272)
   \<and> fst (readNextFrame 64 (parser_on stepped_container 272 (124, 196, 144, 232) (2, 1, 2, 2, 272))) \<noteq> 0
   \<and> stscRuns (parser_on stepped_container 272 (124, 196, 144, 232) (2, 1, 2, 2, 272))
       = [(1, 2), (2, 1), (3, 3)]
   \<and> sorted (map fst [(1, 2), (2, 1), (3, 3 :: u32)] :: u32 list)
   \<and> currentChunk (snd (snd (readNextFrame 64
          (parser_on stepped_container 272 (124, 196, 144, 232) (2, 1, 2, 2, 272))))) = 2
   \<and> samplesReadInChunk (snd (snd (readNextFrame 64
          (parser_on stepped_container 272 (124, 196, 144, 232) (2, 1, 2, 2, 272))))) = 1
   \<and> currentOffset (snd (snd (readNextFrame 64
          (parser_on stepped_container 272 (124, 196, 144, 232) (2, 1, 2, 2, 272))))) = 242
   \<and> samplesInCurrentChunk (snd (snd (readNextFrame 64
          (parser_on stepped_container 272 (124, 196, 144, 232) (2, 1, 2, 2, 272))))) = 1
   \<and> fst (snd (readNextFrame 64
          (parser_on stepped_container 272 (124, 196, 144, 232) (2, 1, 2, 2, 272))))
       = [255, 241, 80, 128, 2, 63, 252, 1, 2, 3, 4, 5, 6, 7, 8, 9, 10]
   \<and> stscRuns (parser_on jumbled_container 272 (124, 196, 144, 232) (2, 1, 2, 2, 272))
       = [(1, 2), (9, 8), (2, 1)]
   \<and> samplesInCurrentChunk (snd (snd (readNextFrame 64
          (parser_on jumbled_container 272 (124, 196, 144, 232) (2, 1, 2, 2, 272))))) = 2"
proof -
  let ?p = "parser_on stepped_container 272 (124, 196, 144, 232) (2, 1, 2, 2, 272)"
  let ?j = "parser_on jumbled_container 272 (124, 196, 144, 232) (2, 1, 2, 2, 272)"
  have ok: "fst (readNextFrame 64 ?p) \<noteq> 0" by (simp add: third_call_stepped)
  have boundary: "samplesInCurrentChunk ?p \<le> samplesReadInChunk ?p" by (simp add: state_fields)
  have size: "length (contents (activeFile ?p)) < 2 ^ 32" by (simp add: state_fields length_stepped)
  have table: "unat (stscOffset ?p) + 16 + 12 * length (stscRuns ?p) \<le> length (contents (activeFile ?p))"
    by (simp add: state_fields stscRuns_stepped length_stepped)
  have okj: "fst (readNextFrame 64 ?j) \<noteq> 0" by (simp add: third_call_jumbled)
  have boundaryj: "samplesInCurrentChunk ?j \<le> samplesReadInChunk ?j" by (simp add: state_fields)
  have sizej: "length (contents (activeFile ?j)) < 2 ^ 32" by (simp add: state_fields length_jumbled)
  have tablej: "unat (stscOffset ?j) + 16 + 12 * length (stscRuns ?j) \<le> length (contents (activeFile ?j))"
    by (simp add: state_fields stscRuns_jumbled length_jumbled)
  have srt: "sorted (map fst [(1, 2), (2, 1), (3, 3 :: u32)] :: u32 list)"
    by (simp add: word_le_nat_alt)
  from chunk_boundary_crossing [OF ok boundary size table]
    chunk_boundary_crossing [OF okj boundaryj sizej tablej] ok srt
  show ?thesis
    by (simp add: two_calls_stepped state_fields stscRuns_stepped stscRuns_jumbled
        stsz_stepped stsz_jumbled words_stepped payload_stepped run_for_chunk_def
        word_le_nat_alt generateAdtsHeader_def freqIdx_def)
qed

section \<open>Frames of a track with one shared sample size\<close>

subsection \<open>What the box scan leaves alone\<close>

lemma sk_refl: "scan_keeps p p"
  by (simp add: scan_keeps_def)

lemma sk_trans: "scan_keeps p p' \<Longrightarrow> scan_keeps p' p'' \<Longrightarrow> scan_keeps p p''"
  by (simp add: scan_keeps_def)

lemma sk_moved: "moved p p' \<Longrightarrow> scan_keeps p p'"
  by (auto simp: moved_def scan_keeps_def repos_fields)

lemma sk_seek: "scan_keeps p (seek w p)"
  by (rule sk_moved [OF moved_seek])

lemma sk_read: "readUI32BE p = (v, p') \<Longrightarrow> scan_keeps p p'"
  by (rule sk_moved [OF moved_readUI32BE'])

lemma sk_upd:
  "scan_keeps p (p \<lparr> stszOffset := a \<rparr>)"
  "scan_keeps p (p \<lparr> stcoOffset := a \<rparr>)"
  "scan_keeps p (p \<lparr> stscOffset := a \<rparr>)"
  "scan_keeps p (p \<lparr> mdatOffset := a \<rparr>)"
  "scan_keeps p (p \<lparr> sampleRate := a \<rparr>)"
  "scan_keeps p (p \<lparr> channels := b \<rparr>)"
  by (simp_all add: scan_keeps_def)

lemma sk_parseStsd: "scan_keeps p (snd (parseStsd n p))"
proof -
  let ?p1 = "seek (getPos p + 8) p"
  obtain size p2 where r1: "readUI32BE ?p1 = (size, p2)" by (cases "readUI32BE ?p1")
  obtain format p3 where r2: "readUI32BE p2 = (format, p3)" by (cases "readUI32BE p2")
  have k3: "scan_keeps p p3"
    by (meson sk_trans sk_seek sk_read [OF r1] sk_read [OF r2])
  show ?thesis
  proof (cases "format = 0x6D703461")
    case False
    then show ?thesis using k3 by (simp add: parseStsd_def Let_def r1 r2)
  next
    case True
    let ?p5 = "seek (getPos (seek (getPos p3 + 8) p3) + 8) (seek (getPos p3 + 8) p3)"
    obtain w p6 where r3: "readUI32BE ?p5 = (w, p6)" by (cases "readUI32BE ?p5")
    let ?p7 = "p6 \<lparr> channels := ucast (ucast (drop_bit 16 w) :: 16 word) \<rparr>"
    let ?p8 = "seek (getPos ?p7 + 4) ?p7"
    obtain r p9 where r4: "readUI32BE ?p8 = (r, p9)" by (cases "readUI32BE ?p8")
    have "scan_keeps p3 ?p5" by (meson sk_trans sk_seek)
    then have "scan_keeps p3 p6" using sk_read [OF r3] by (meson sk_trans)
    then have "scan_keeps p3 ?p7" using sk_upd(6) by (meson sk_trans)
    then have "scan_keeps p3 ?p8" using sk_seek by (meson sk_trans)
    then have "scan_keeps p3 p9" using sk_read [OF r4] by (meson sk_trans)
    then have "scan_keeps p (p9 \<lparr> sampleRate := drop_bit 16 r \<rparr>)"
      using k3 sk_upd(5) by (meson sk_trans)
    then show ?thesis using True by (simp add: parseStsd_def Let_def r1 r2 r3 r4)
  qed
qed

lemma sk_stblLoop: "scan_keeps p (snd (stblLoop e c p))"
proof (induction "100 - c" arbitrary: c p rule: less_induct)
  case less
  show ?case
  proof (cases "getPos p < e \<and> c < 100")
    case False
    then show ?thesis by (simp add: stblLoop_stop sk_refl)
  next
    case True
    have lt: "100 - (c + 1) < 100 - c" using True by arith
    obtain s4 p1 where r1: "readUI32BE p = (s4, p1)" by (cases "readUI32BE p")
    obtain t4 p2 where r2: "readUI32BE p1 = (t4, p2)" by (cases "readUI32BE p1")
    have k2: "scan_keeps p p2" by (meson sk_trans sk_read [OF r1] sk_read [OF r2])
    define p3 where "p3 = (if t4 = 0x7374737A then p2 \<lparr> stszOffset := getPos p2 - 8 \<rparr>
                         else if t4 = 0x7374636F then p2 \<lparr> stcoOffset := getPos p2 - 8 \<rparr>
                         else if t4 = 0x73747363 then p2 \<lparr> stscOffset := getPos p2 - 8 \<rparr>
                         else if t4 = 0x73747364 then snd (parseStsd (s4 - 8) p2)
                         else p2)"
    have k3: "scan_keeps p2 p3"
      unfolding p3_def by (simp add: sk_upd sk_parseStsd sk_refl)
    let ?p4 = "seek (getPos p2 + s4 - 8) p3"
    have k4: "scan_keeps p ?p4" by (meson sk_trans k2 k3 sk_seek)
    have k5: "scan_keeps p (snd (stblLoop e (c + 1) ?p4))"
      using less [OF lt] k4 by (meson sk_trans)
    show ?thesis
      using True k2 k5 by (simp add: stblLoop_go r1 r2 Let_def flip: p3_def)
  qed
qed

lemma sk_minfLoop: "scan_keeps p (snd (minfLoop e c p))"
proof (induction "100 - c" arbitrary: c p rule: less_induct)
  case less
  show ?case
  proof (cases "getPos p < e \<and> c < 100")
    case False
    then show ?thesis by (simp add: minfLoop_stop sk_refl)
  next
    case True
    have lt: "100 - (c + 1) < 100 - c" using True by arith
    obtain s3 p1 where r1: "readUI32BE p = (s3, p1)" by (cases "readUI32BE p")
    obtain t3 p2 where r2: "readUI32BE p1 = (t3, p2)" by (cases "readUI32BE p1")
    have k2: "scan_keeps p p2" by (meson sk_trans sk_read [OF r1] sk_read [OF r2])
    define p3 where "p3 = (if t3 = 0x7374626C then
                           (let stblEnd = getPos p2 + s3 - 8 in snd (stblLoop stblEnd 0 p2))
                         else p2)"
    have k3: "scan_keeps p2 p3"
      unfolding p3_def by (simp add: sk_stblLoop sk_refl Let_def)
    let ?p4 = "seek (getPos p2 + s3 - 8) p3"
    have k4: "scan_keeps p ?p4" by (meson sk_trans k2 k3 sk_seek)
    have k5: "scan_keeps p (snd (minfLoop e (c + 1) ?p4))"
      using less [OF lt] k4 by (meson sk_trans)
    show ?thesis
      using True k2 k5 by (simp add: minfLoop_go r1 r2 Let_def flip: p3_def)
  qed
qed

lemma sk_mdiaLoop: "scan_keeps p (snd (snd (mdiaLoop e c a p)))"
proof (induction "100 - c" arbitrary: c a p rule: less_induct)
  case less
  show ?case
  proof (cases "getPos p < e \<and> c < 100")
    case False
    then show ?thesis by (simp add: mdiaLoop_stop sk_refl)
  next
    case True
    have lt: "100 - (c + 1) < 100 - c" using True by arith
    obtain s2 p1 where r1: "readUI32BE p = (s2, p1)" by (cases "readUI32BE p")
    obtain t2 p2 where r2: "readUI32BE p1 = (t2, p2)" by (cases "readUI32BE p1")
    have k2: "scan_keeps p p2" by (meson sk_trans sk_read [OF r1] sk_read [OF r2])
    define x where "x = (if t2 = 0x68646C72 then
                        (let p2a = seek (getPos p2 + 8) p2;
                             (subtype, p2b) = readUI32BE p2a
                         in (if subtype = 0x736F756E then True else a, p2b))
                      else if t2 = 0x6D696E66 then
                        (let minfEnd = getPos p2 + s2 - 8
                         in (a, snd (minfLoop minfEnd 0 p2)))
                      else (a, p2))"
    have "scan_keeps p2 (snd (readUI32BE (seek (getPos p2 + 8) p2)))"
      by (meson sk_trans sk_seek sk_moved moved_readUI32BE)
    then have k3: "scan_keeps p2 (snd x)"
      unfolding x_def by (simp add: sk_minfLoop sk_refl Let_def split_beta)
    let ?p4 = "seek (getPos p2 + s2 - 8) (snd x)"
    have k4: "scan_keeps p ?p4" by (meson sk_trans k2 k3 sk_seek)
    have k5: "scan_keeps p (snd (snd (mdiaLoop e (c + 1) (fst x) ?p4)))"
      using less [OF lt] k4 by (meson sk_trans)
    have go: "mdiaLoop e c a p = (if s2 < 8 then (c + 1, a, p2)
                else mdiaLoop e (c + 1) (fst x) (seek (getPos p2 + s2 - 8) (snd x)))"
      using True unfolding x_def by (simp add: mdiaLoop_go r1 r2 Let_def split_beta)
    show ?thesis
      using k2 k5 by (simp add: go)
  qed
qed

lemma sk_trakLoop: "scan_keeps p (snd (snd (trakLoop e c a p)))"
proof (induction "500 - c" arbitrary: c a p rule: less_induct)
  case less
  show ?case
  proof (cases "getPos p < e \<and> c < 500")
    case False
    then show ?thesis by (simp add: trakLoop_stop sk_refl)
  next
    case True
    have lt: "500 - (c + 1) < 500 - c" using True by arith
    obtain size p1 where r1: "readUI32BE p = (size, p1)" by (cases "readUI32BE p")
    obtain type p2 where r2: "readUI32BE p1 = (type, p2)" by (cases "readUI32BE p1")
    have k2: "scan_keeps p p2" by (meson sk_trans sk_read [OF r1] sk_read [OF r2])
    define x where "x = (if type = 0x6D646961 then
                        (let mdiaEnd = getPos p2 + size - 8
                         in snd (mdiaLoop mdiaEnd 0 a p2))
                      else (a, p2))"
    have k3: "scan_keeps p2 (snd x)"
      unfolding x_def by (simp add: sk_mdiaLoop sk_refl Let_def)
    let ?p4 = "seek (getPos p2 + size - 8) (snd x)"
    have k4: "scan_keeps p ?p4" by (meson sk_trans k2 k3 sk_seek)
    have k5: "scan_keeps p (snd (snd (trakLoop e (c + 1) (fst x) ?p4)))"
      using less [OF lt] k4 by (meson sk_trans)
    have go: "trakLoop e c a p = (if size < 8 then (c + 1, a, p2)
                else trakLoop e (c + 1) (fst x) (seek (getPos p2 + size - 8) (snd x)))"
      using True unfolding x_def by (simp add: trakLoop_go r1 r2 Let_def split_beta)
    show ?thesis
      using k2 k5 by (simp add: go)
  qed
qed

lemma sk_parseTrak: "scan_keeps p (snd (parseTrak n p))"
proof -
  let ?p0 = "p \<lparr> stszOffset := 0, stcoOffset := 0, stscOffset := 0 \<rparr>"
  have "scan_keeps p ?p0" by (simp add: scan_keeps_def)
  then have "scan_keeps p (snd (snd (trakLoop (getPos p + n) 0 False ?p0)))"
    using sk_trakLoop [of ?p0 "getPos p + n" 0 False] by (meson sk_trans)
  then show ?thesis by (simp add: parseTrak_def Let_def split_beta)
qed

lemma sk_moovLoop: "scan_keeps p (snd (snd (moovLoop e c p)))"
proof (induction "500 - c" arbitrary: c p rule: less_induct)
  case less
  show ?case
  proof (cases "getPos p < e \<and> c < 500")
    case False
    then show ?thesis by (simp add: moovLoop_stop sk_refl)
  next
    case True
    have lt: "500 - (c + 1) < 500 - c" using True by arith
    obtain size p1 where r1: "readUI32BE p = (size, p1)" by (cases "readUI32BE p")
    obtain type p2 where r2: "readUI32BE p1 = (type, p2)" by (cases "readUI32BE p1")
    have k2: "scan_keeps p p2" by (meson sk_trans sk_read [OF r1] sk_read [OF r2])
    define x where "x = (if type = 0x7472616B then parseTrak (size - 8) p2 else (False, p2))"
    have k3: "scan_keeps p2 (snd x)"
      unfolding x_def by (simp add: sk_parseTrak sk_refl)
    have k3': "scan_keeps p (snd x)" by (meson sk_trans k2 k3)
    let ?p4 = "seek (getPos p2 + size - 8) (snd x)"
    have k4: "scan_keeps p ?p4" by (meson sk_trans k2 k3 sk_seek)
    have k5: "scan_keeps p (snd (snd (moovLoop e (c + 1) ?p4)))"
      using less [OF lt] k4 by (meson sk_trans)
    have go: "moovLoop e c p = (if size < 8 then (c + 1, False, p2)
                else if fst x then (c + 1, True, snd x)
                else moovLoop e (c + 1) (seek (getPos p2 + size - 8) (snd x)))"
      using True unfolding x_def by (simp add: moovLoop_go r1 r2 Let_def split_beta)
    show ?thesis
      using k2 k3' k5 by (simp add: go)
  qed
qed

lemma sk_parseMoov: "scan_keeps p (snd (parseMoov n p))"
  using sk_moovLoop [of p "getPos p + n" 0] by (simp add: parseMoov_def Let_def split_beta)

lemma sk_openLoop: "scan_keeps p (snd (snd (openLoop fs pos c mf p)))"
proof (induction "1000 - c" arbitrary: pos c mf p rule: less_induct)
  case less
  show ?case
  proof (cases "pos < fs \<and> c < 1000")
    case False
    then show ?thesis by (simp add: openLoop_stop sk_refl)
  next
    case True
    have lt: "1000 - (c + 1) < 1000 - c" using True by arith
    obtain atomSize p2 where r1: "readUI32BE (seek pos p) = (atomSize, p2)"
      by (cases "readUI32BE (seek pos p)")
    obtain atomType p3 where r2: "readUI32BE p2 = (atomType, p3)" by (cases "readUI32BE p2")
    have k3: "scan_keeps p p3"
      by (meson sk_trans sk_seek sk_read [OF r1] sk_read [OF r2])
    define y where "y = (if atomSize = 1 then
                        (let p3a = seek (pos + 8) p3;
                             (high, p3b) = readUI32BE p3a;
                             (low, p3c) = readUI32BE p3b
                         in (low, p3c))
                      else (atomSize, p3))"
    have "scan_keeps p3 (snd (readUI32BE (snd (readUI32BE (seek (pos + 8) p3)))))"
      by (meson sk_trans sk_seek sk_moved moved_readUI32BE)
    then have "scan_keeps p3 (snd y)"
      unfolding y_def by (simp add: sk_refl Let_def split_beta)
    then have k4: "scan_keeps p (snd y)" using k3 by (meson sk_trans)
    define z where "z = (if atomType = 0x6D6F6F76 then
                              (True, snd (parseMoov (fst y - 8) (snd y)))
                            else if atomType = 0x6D646174 then
                              (mf, (snd y) \<lparr> mdatOffset := pos + 8 \<rparr>)
                            else (mf, snd y))"
    have "scan_keeps (snd y) (snd z)"
      unfolding z_def by (simp add: sk_parseMoov sk_upd sk_refl)
    then have k5: "scan_keeps p (snd z)" using k4 by (meson sk_trans)
    have k6: "scan_keeps p (snd (snd (openLoop fs (pos + fst y) (c + 1) (fst z) (snd z))))"
      using less [OF lt] k5 by (meson sk_trans)
    have go: "openLoop fs pos c mf p =
        (if atomSize = 0 then (c + 1, mf, p3)
         else if fst y < 8 then (c + 1, mf, snd y)
         else if pos + fst y > fs then (c + 1, fst z, snd z)
         else openLoop fs (pos + fst y) (c + 1) (fst z) (snd z))"
      using True unfolding y_def z_def by (simp add: openLoop_go r1 r2 Let_def split_beta)
    show ?thesis
      using k3 k4 k5 k6 by (simp add: go)
  qed
qed

lemma open_post:
  assumes op: "open (Some f) fl p0 = (True, p)"
  shows "contents (activeFile p) = contents f \<and> currentSample p = 0 \<and> currentChunk p = 1
     \<and> samplesReadInChunk p = 0 \<and> stszOffset p \<noteq> 0 \<and> stcoOffset p \<noteq> 0 \<and> stscOffset p \<noteq> 0
     \<and> samplesInCurrentChunk p
          = u32_at (contents f) (past (contents f) 4 (unat (stscOffset p + 16)))
     \<and> currentOffset p = u32_at (contents f) (unat (stcoOffset p + 16))"
proof -
  let ?P0 = "p0 \<lparr> activeFile := f, usingFlash := fl,
                        stszOffset := 0, stcoOffset := 0, stscOffset := 0, mdatOffset := 0,
                        currentSample := 0, currentChunk := 1, samplesReadInChunk := 0 \<rparr>"
  let ?fs = "of_nat (length (contents f)) :: u32"
  obtain ac mf p1 where ol: "openLoop ?fs 0 0 False ?P0 = (ac, mf, p1)"
    by (cases "openLoop ?fs 0 0 False ?P0")
  have "scan_keeps ?P0 p1" using sk_openLoop [of ?P0 ?fs 0 0 False] by (simp add: ol)
  then have k: "contents (activeFile p1) = contents f" "currentSample p1 = 0"
    "currentChunk p1 = 1" "samplesReadInChunk p1 = 0"
    by (simp_all add: scan_keeps_def)
  let ?cs = "contents f"
  let ?tail = "(let p2 = seek (stscOffset p1 + 12) p1;
                     p3 = seek (stscOffset p2 + 16) p2;
                     p4 = p3 \<lparr> currentChunk := 1 \<rparr>;
                     (firstChunk, p5) = readUI32BE p4;
                     (n, p6) = readUI32BE p5;
                     p7 = p6 \<lparr> samplesInCurrentChunk := n \<rparr>;
                     p8 = seek (stcoOffset p7 + 16) p7;
                     (off, p9) = readUI32BE p8
                 in (True, p9 \<lparr> currentOffset := off \<rparr>))"
  have e: "open (Some f) fl p0 =
      (if mf \<and> stszOffset p1 \<noteq> 0 \<and> stcoOffset p1 \<noteq> 0 \<and> stscOffset p1 \<noteq> 0 then ?tail
       else (False, p1))"
    by (simp only: open_def option.case Let_def ol prod.case)
  have t: "?tail = (True, (repos (past ?cs 4 (unat (stcoOffset p1 + 16))) p1)
        \<lparr> currentChunk := 1,
          samplesInCurrentChunk := u32_at ?cs (past ?cs 4 (unat (stscOffset p1 + 16))),
          currentOffset := u32_at ?cs (unat (stcoOffset p1 + 16)) \<rparr>)"
    by (simp add: io_simps Let_def repos_update k cong: let_weak_cong prod.case_cong_weak)
  from op have c: "mf \<and> stszOffset p1 \<noteq> 0 \<and> stcoOffset p1 \<noteq> 0 \<and> stscOffset p1 \<noteq> 0"
    unfolding e by (auto split: if_splits)
  with op have "p = (repos (past ?cs 4 (unat (stcoOffset p1 + 16))) p1)
        \<lparr> currentChunk := 1,
          samplesInCurrentChunk := u32_at ?cs (past ?cs 4 (unat (stscOffset p1 + 16))),
          currentOffset := u32_at ?cs (unat (stcoOffset p1 + 16)) \<rparr>"
    unfolding e t by simp
  then show ?thesis using c k by (simp add: repos_fields)
qed

subsection \<open>One call on a uniform track\<close>

lemma unat_of_nat32: "x < 2 ^ 32 \<Longrightarrow> unat (of_nat x :: u32) = x"
  by (simp add: unat_of_nat)

lemma unat_plus_nat:
  "unat (a :: u32) + x < 2 ^ 32 \<Longrightarrow> unat (a + of_nat x) = unat a + x"
proof -
  assume b: "unat a + x < 2 ^ 32"
  then have "unat (of_nat x :: u32) = x" by (simp add: unat_of_nat32)
  with b show ?thesis using unat_add_lem [of a "of_nat x"] by simp
qed

lemma unat_plus_num:
  "unat (a :: u32) + numeral k < 2 ^ 32 \<Longrightarrow> unat (a + numeral k) = unat a + numeral k"
  using unat_plus_nat [of a "numeral k"] by simp

lemma of_nat_less32: "i < unat (n :: u32) \<Longrightarrow> (of_nat i :: u32) < n"
proof -
  assume a: "i < unat n"
  have "unat n < 2 ^ 32" using unsigned_less [of n, where ?'a = nat] by simp
  with a have "unat (of_nat i :: u32) = i" by (simp add: unat_of_nat32)
  with a show ?thesis by (simp add: word_less_nat_alt)
qed

lemma of_nat_le32: "m \<le> unat (K :: u32) \<Longrightarrow> (K \<le> of_nat m) = (unat K \<le> m)"
proof -
  assume a: "m \<le> unat K"
  have "unat K < 2 ^ 32" using unsigned_less [of K, where ?'a = nat] by simp
  with a have "unat (of_nat m :: u32) = m" by (simp add: unat_of_nat32)
  then show ?thesis by (simp add: word_le_nat_alt)
qed

lemma uniform_same:
  "same_tables p p' \<Longrightarrow> uniform_track p S n K Os \<Longrightarrow> uniform_track p' S n K Os"
  by (simp add: same_tables_def uniform_track_def Let_def)

lemma same_tables_refl: "same_tables p p"
  by (simp add: same_tables_def)

lemma same_tables_trans: "same_tables p p' \<Longrightarrow> same_tables p' p'' \<Longrightarrow> same_tables p p''"
  by (simp add: same_tables_def)

lemma uniform_stsz:
  assumes U: "uniform_track p S n K Os"
  shows "stszDefaultSize p = S" "stszCount p = n" "nextFrameSize p = S"
proof -
  let ?cs = "contents (activeFile p)"
  from U have a: "unat (stszOffset p) + 20 \<le> length ?cs" "length ?cs < 2 ^ 32"
    and v: "u32_at ?cs (unat (stszOffset p) + 12) = S" "S \<noteq> 0"
      "u32_at ?cs (unat (stszOffset p) + 16) = n"
    by (simp_all add: uniform_track_def Let_def)
  have u: "unat (stszOffset p + 12) = unat (stszOffset p) + 12"
    using a by (simp add: unat_plus_num)
  show d: "stszDefaultSize p = S"
    by (simp add: stszDefaultSize_def io_simps u v)
  have q: "past ?cs 4 (unat (stszOffset p) + 12) = unat (stszOffset p) + 16"
    using a by (simp add: past_in_range)
  show "stszCount p = n"
    by (simp add: stszCount_def io_simps u) (simp only: q v)
  show "nextFrameSize p = S"
    using v by (simp add: nextFrameSize_def d)
qed

lemma uniform_runs:
  assumes U: "uniform_track p S n K Os"
  shows "stscRuns p = [(1, K)]"
  using U by (simp add: uniform_track_def stscRuns_def Let_def)

lemma uniform_nextChunk:
  assumes U: "uniform_track p S n K Os" and s: "samplesInCurrentChunk p = K"
  shows "samplesInCurrentChunk (nextChunk p) = K"
proof -
  from U have "length (contents (activeFile p)) < 2 ^ 32"
    "unat (stscOffset p) + 16 + 12 * length (stscRuns p) \<le> length (contents (activeFile p))"
    by (simp_all add: uniform_runs [OF U]) (simp_all add: uniform_track_def Let_def)
  from nextChunk_scan [OF this] show ?thesis
    by (simp add: uniform_runs [OF U] s)
qed

lemma uniform_entry:
  assumes U: "uniform_track p S n K Os" and j: "j < length Os"
  shows "unat (stcoOffset p + 16 + of_nat j * 4) = unat (stcoOffset p) + 16 + 4 * j"
    and "u32_at (contents (activeFile p)) (unat (stcoOffset p) + 16 + 4 * j) = Os ! j"
proof -
  let ?cs = "contents (activeFile p)"
  from U have a: "unat (stcoOffset p) + 16 + 4 * length Os \<le> length ?cs" "length ?cs < 2 ^ 32"
    and e: "map (\<lambda>j. u32_at ?cs (unat (stcoOffset p) + 16 + 4 * j)) [0 ..< length Os] = Os"
    by (simp_all add: uniform_track_def Let_def)
  have "unat (stcoOffset p) + (16 + 4 * j) < 2 ^ 32" using a j by simp
  from unat_plus_nat [OF this]
  show "unat (stcoOffset p + 16 + of_nat j * 4) = unat (stcoOffset p) + 16 + 4 * j"
    by (simp add: algebra_simps)
  have "map (\<lambda>j. u32_at ?cs (unat (stcoOffset p) + 16 + 4 * j)) [0 ..< length Os] ! j
          = u32_at ?cs (unat (stcoOffset p) + 16 + 4 * j)"
    using j by (simp only: nth_map_upt minus_nat.diff_0 add_0)
  then show "u32_at ?cs (unat (stcoOffset p) + 16 + 4 * j) = Os ! j" by (simp only: e)
qed

lemma uniform_step:
  assumes U: "uniform_track p S n K Os" and buf: "unat S + 7 \<le> unat B"
    and A: "at_sample p S K i" and i: "i < unat n" and z: "stszOffset p \<noteq> 0"
  shows "fst (readNextFrame B p) = S + 7
     \<and> fst (snd (readNextFrame B p))
         = generateAdtsHeader (sint (S + 7)) 2 (sint (sampleRate p)) (uint (channels p))
           @ take (unat S)
               (drop (unat (Os ! (i div unat K) + of_nat (i mod unat K) * S))
                  (contents (activeFile p)))
     \<and> same_tables p (snd (snd (readNextFrame B p)))
     \<and> at_sample (snd (snd (readNextFrame B p))) S K (i + 1)"
proof -
  let ?cs = "contents (activeFile p)"
  let ?k = "unat K"
  let ?E = "\<lambda>j. u32_at ?cs (unat (stcoOffset p) + 16 + 4 * j)"
  from U have kpos: "0 < ?k" and chunks: "unat n \<le> ?k * length Os"
    by (simp_all add: uniform_track_def Let_def unat_gt_0)
  from A obtain j m where jm: "i = j * ?k + m" "m \<le> ?k" "m = 0 \<longrightarrow> i = 0"
    and cs: "currentSample p = of_nat i" and cc: "currentChunk p = of_nat j + 1"
    and sr: "samplesReadInChunk p = of_nat m" and si: "samplesInCurrentChunk p = K"
    and co: "currentOffset p = ?E j + of_nat m * S"
    unfolding at_sample_def by blast
  note st = uniform_stsz [OF U]
  have a1: "currentSample p < stszCount p" using of_nat_less32 [OF i] by (simp add: cs st)
  have "unat B < 2 ^ 32" using unsigned_less [of B, where ?'a = nat] by simp
  with buf have "unat S + 7 < 2 ^ 32" by simp
  then have "unat (S + 7) = unat S + 7" by (rule unat_plus7)
  with buf have a2: "\<not> B < nextFrameSize p + 7" by (simp add: st word_less_nat_alt)
  note R = rnf_accepts [OF z a1 a2, unfolded st]
  show ?thesis
  proof (cases "m < ?k")
    case True
    have ns: "chunkStep p = p"
      using True jm(2) by (simp add: chunkStep_def si sr of_nat_le32)
    have dv: "i div ?k = j" "i mod ?k = m" using True jm(1) by simp_all
    have "j * ?k + m < length Os * ?k" using jm(1) i chunks by (simp add: mult.commute)
    then have "j * ?k < length Os * ?k" by (rule le_less_trans [OF le_add1])
    then have jl: "j < length Os" by (simp only: mult_less_cancel2)
    have E: "?E j = Os ! j" by (rule uniform_entry(2) [OF U jl])
    have at: "at_sample (snd (snd (readNextFrame B p))) S K (i + 1)"
      unfolding at_sample_def
    proof (rule exI [of _ j], rule exI [of _ "m + 1"], intro conjI)
      show "i + 1 = j * ?k + (m + 1)" using jm(1) by simp
      show "m + 1 \<le> ?k" using True by simp
      show "m + 1 = 0 \<longrightarrow> i + 1 = 0" by simp
    qed (simp_all add: R ns repos_fields cs cc sr si co algebra_simps)
    have co': "currentOffset p = Os ! j + of_nat m * S" by (simp only: co E)
    have r1: "fst (readNextFrame B p) = S + 7" by (simp add: R)
    have r2: "fst (snd (readNextFrame B p))
         = generateAdtsHeader (sint (S + 7)) 2 (sint (sampleRate p)) (uint (channels p))
           @ take (unat S)
               (drop (unat (Os ! (i div unat K) + of_nat (i mod unat K) * S))
                  (contents (activeFile p)))"
      by (simp add: R ns co' dv)
    have r3: "same_tables p (snd (snd (readNextFrame B p)))"
      by (simp add: R ns repos_fields same_tables_def)
    from r1 r2 r3 at show ?thesis by (intro conjI)
  next
    case False
    with jm(2) have mk: "m = ?k" by simp
    have ns: "chunkStep p = nextChunk p"
      by (simp add: chunkStep_def si sr mk)
    have ik: "i = (j + 1) * ?k" using jm(1) mk by simp
    have dv: "i div ?k = j + 1" "i mod ?k = 0" using kpos by (simp_all add: ik)
    have "(j + 1) * ?k < length Os * ?k" using ik i chunks by (simp add: mult.commute)
    then have jl: "j + 1 < length Os" by (simp only: mult_less_cancel2)
    have E: "?E (j + 1) = Os ! (j + 1)" by (rule uniform_entry(2) [OF U jl])
    have w: "(of_nat j + 1 + 1 - 1 :: u32) = of_nat (j + 1)" by simp
    have no: "currentOffset (nextChunk p) = ?E (j + 1)"
      using uniform_entry(1) [OF U jl]
      by (simp only: nextChunk_fields stcoEntry_eq cc w)
    have nk: "samplesInCurrentChunk (nextChunk p) = K" by (rule uniform_nextChunk [OF U si])
    have at: "at_sample (snd (snd (readNextFrame B p))) S K (i + 1)"
      unfolding at_sample_def
    proof (rule exI [of _ "j + 1"], rule exI [of _ 1], intro conjI)
      show "i + 1 = (j + 1) * ?k + 1" using ik by simp
      show "1 \<le> ?k" using kpos by simp
      show "(1 :: nat) = 0 \<longrightarrow> i + 1 = 0" by simp
    qed (simp_all add: R ns repos_fields nextChunk_fields(1,2,3,5,6,7,8) cs cc no nk)
    have no': "currentOffset (nextChunk p) = Os ! (j + 1)" by (simp only: no E)
    have r1: "fst (readNextFrame B p) = S + 7" by (simp add: R)
    have r2: "fst (snd (readNextFrame B p))
         = generateAdtsHeader (sint (S + 7)) 2 (sint (sampleRate p)) (uint (channels p))
           @ take (unat S)
               (drop (unat (Os ! (i div unat K) + of_nat (i mod unat K) * S))
                  (contents (activeFile p)))"
      by (simp add: R ns nextChunk_fields(5,9,10) no' dv)
    have r3: "same_tables p (snd (snd (readNextFrame B p)))"
      by (simp add: R ns repos_fields nextChunk_fields(5,6,7,8,9,10) same_tables_def)
    from r1 r2 r3 at show ?thesis by (intro conjI)
  qed
qed

lemma uniform_done:
  assumes U: "uniform_track p S n K Os" and c: "currentSample p = n"
  shows "fst (readNextFrame B p) = 0
     \<and> same_tables p (snd (snd (readNextFrame B p)))
     \<and> currentSample (snd (snd (readNextFrame B p))) = n"
proof -
  have "stszCount p \<le> currentSample p" by (simp add: uniform_stsz [OF U] c)
  then show ?thesis
    by (simp add: readNextFrame_unfold repos_fields same_tables_def c)
qed

lemma uniform_start:
  assumes op: "open (Some f) fl p0 = (True, p)" and U: "uniform_track p S n K Os"
  shows "at_sample p S K 0" and "stszOffset p \<noteq> 0" and "contents (activeFile p) = contents f"
proof -
  note P = open_post [OF op]
  let ?cs = "contents (activeFile p)"
  from P show z: "stszOffset p \<noteq> 0" and cf: "contents (activeFile p) = contents f" by simp_all
  from U have lim: "length ?cs < 2 ^ 32" and sc: "unat (stscOffset p) + 28 \<le> length ?cs"
    and k: "u32_at ?cs (unat (stscOffset p) + 20) = K"
    and co: "unat (stcoOffset p) + 16 + 4 * length Os \<le> length ?cs"
    by (simp_all add: uniform_track_def Let_def)
  have u1: "unat (stscOffset p + 16) = unat (stscOffset p) + 16"
    using sc lim by (simp add: unat_plus_num)
  have u2: "unat (stcoOffset p + 16) = unat (stcoOffset p) + 16"
    using co lim by (simp add: unat_plus_num)
  have q: "past ?cs 4 (unat (stscOffset p) + 16) = unat (stscOffset p) + 20"
    using sc by (simp add: past_in_range)
  have si: "samplesInCurrentChunk p = K" using P by (simp only: cf [symmetric] u1 q k)
  have off: "currentOffset p = u32_at ?cs (unat (stcoOffset p) + 16)"
    using P by (simp only: cf [symmetric] u2)
  show "at_sample p S K 0"
    unfolding at_sample_def
  proof (rule exI [of _ 0], rule exI [of _ 0], intro conjI)
    show "samplesInCurrentChunk p = K" by (rule si)
    show "currentOffset p = u32_at ?cs (unat (stcoOffset p) + 16 + 4 * 0) + of_nat 0 * S"
      using off by simp
  qed (simp_all add: P)
qed

lemma uniform_walk:
  assumes U: "uniform_track p S n K Os" and buf: "unat S + 7 \<le> unat B"
    and A: "at_sample p S K 0" and z: "stszOffset p \<noteq> 0"
  shows "i \<le> unat n \<Longrightarrow>
           same_tables p (after_calls i B p) \<and> at_sample (after_calls i B p) S K i"
proof (induction i)
  case 0
  then show ?case using A by (simp add: same_tables_refl)
next
  case (Suc i)
  then have i: "i < unat n" and st: "same_tables p (after_calls i B p)"
    and at: "at_sample (after_calls i B p) S K i" by simp_all
  have U': "uniform_track (after_calls i B p) S n K Os" by (rule uniform_same [OF st U])
  have z': "stszOffset (after_calls i B p) \<noteq> 0" using st z by (simp add: same_tables_def)
  from uniform_step [OF U' buf at i z']
  have "same_tables (after_calls i B p) (after_calls (Suc i) B p)"
    and "at_sample (after_calls (Suc i) B p) S K (i + 1)" by simp_all
  with st show ?case by (simp add: same_tables_trans [OF st])
qed

lemma uniform_end:
  assumes U: "uniform_track p S n K Os" and st: "same_tables p p'" and c: "currentSample p' = n"
  shows "same_tables p (after_calls d B p') \<and> currentSample (after_calls d B p') = n"
proof (induction d)
  case 0
  then show ?case using st c by simp
next
  case (Suc d)
  then have s: "same_tables p (after_calls d B p')" and c': "currentSample (after_calls d B p') = n"
    by simp_all
  from uniform_done [OF uniform_same [OF s U] c', of B] show ?case
    by (simp add: same_tables_trans [OF s])
qed

lemma after_calls_add:
  "after_calls (a + b) B p = after_calls b B (after_calls a B p)"
  by (induction b) simp_all

lemma uniform_audio: "uniform_track (opened audio_container) 10 6 2 [208, 228, 248]"
  by (simp add: uniform_track_def opened_audio state_fields length_audio words_audio Let_def
      upt_conv_Cons)

text \<open>
  C1. Let \<open>open\<close> succeed on a file and leave the parser \<open>p\<close>, and let the tables at the
  offsets it recorded describe a track with one shared sample size: the file is below
  4 GiB, the sample-size table stores the shared size \<open>S\<close> and the sample count \<open>n\<close>, the
  sample-to-chunk table is the single run of \<open>K\<close> samples per chunk from chunk 1, and the
  chunk-offset table has the entries \<open>Os\<close>, enough chunks for \<open>n\<close> samples. Let the buffer
  hold \<open>S + 7\<close> bytes or more. Then call number \<open>i\<close> (counted from 0) of \<open>readNextFrame\<close>
  returns \<open>S + 7\<close> for every \<open>i\<close> below \<open>n\<close>, and its output is the 7-byte header followed
  by the \<open>S\<close> bytes of the file at offset \<open>Os ! (i div K) + (i mod K) * S\<close> (in 32-bit
  arithmetic); every call from number \<open>n\<close> on returns 0. The count \<open>n\<close> is the one stored in
  the sample-size table.
\<close>

theorem uniform_track_frames:
  assumes op: "open (Some f) isFlash p0 = (True, p)"
    and U: "uniform_track p S n K Os"
    and buf: "unat S + 7 \<le> unat bufferSize"
  shows "(i < unat n \<longrightarrow>
            fst (readNextFrame bufferSize (after_calls i bufferSize p)) = S + 7
          \<and> fst (snd (readNextFrame bufferSize (after_calls i bufferSize p)))
              = generateAdtsHeader (sint (S + 7)) 2 (sint (sampleRate p)) (uint (channels p))
                @ take (unat S)
                    (drop (unat (Os ! (i div unat K) + of_nat (i mod unat K) * S)) (contents f)))
       \<and> (unat n \<le> i \<longrightarrow> fst (readNextFrame bufferSize (after_calls i bufferSize p)) = 0)"
proof (intro conjI impI)
  note S0 = uniform_start [OF op U]
  {
    assume i: "i < unat n"
    then have "i \<le> unat n" by simp
    from uniform_walk [OF U buf S0(1) S0(2) this]
    have st: "same_tables p (after_calls i bufferSize p)"
      and at: "at_sample (after_calls i bufferSize p) S K i" by simp_all
    have U': "uniform_track (after_calls i bufferSize p) S n K Os" by (rule uniform_same [OF st U])
    have z': "stszOffset (after_calls i bufferSize p) \<noteq> 0"
      using st S0(2) by (simp add: same_tables_def)
    note r = uniform_step [OF U' buf at i z']
    from r show "fst (readNextFrame bufferSize (after_calls i bufferSize p)) = S + 7" by simp
    from r st show "fst (snd (readNextFrame bufferSize (after_calls i bufferSize p)))
              = generateAdtsHeader (sint (S + 7)) 2 (sint (sampleRate p)) (uint (channels p))
                @ take (unat S)
                    (drop (unat (Os ! (i div unat K) + of_nat (i mod unat K) * S)) (contents f))"
      by (simp add: same_tables_def S0(3))
  }
  {
    assume "unat n \<le> i"
    then obtain d where d: "i = unat n + d" using le_Suc_ex by blast
    from uniform_walk [OF U buf S0(1) S0(2), of "unat n"]
    have st: "same_tables p (after_calls (unat n) bufferSize p)"
      and at: "at_sample (after_calls (unat n) bufferSize p) S K (unat n)" by simp_all
    from at have c: "currentSample (after_calls (unat n) bufferSize p) = n"
      by (auto simp: at_sample_def)
    from uniform_end [OF U st c, of d bufferSize]
    have s: "same_tables p (after_calls i bufferSize p)"
      and c': "currentSample (after_calls i bufferSize p) = n"
      by (simp_all add: d after_calls_add)
    from uniform_done [OF uniform_same [OF s U] c', of bufferSize]
    show "fst (readNextFrame bufferSize (after_calls i bufferSize p)) = 0" by simp
  }
qed

theorem uniform_track_frames_witness:
  "open (Some \<lparr> contents = audio_container, position = 0 \<rparr>) False new_parser
     = (True, opened audio_container)
   \<and> uniform_track (opened audio_container) 10 6 2 [208, 228, 248]
   \<and> unat (10 :: u32) + 7 \<le> unat (64 :: u32)
   \<and> fst (readNextFrame 64 (after_calls 0 64 (opened audio_container))) = 17
   \<and> fst (readNextFrame 64 (after_calls 1 64 (opened audio_container))) = 17
   \<and> fst (readNextFrame 64 (after_calls 2 64 (opened audio_container))) = 17
   \<and> fst (readNextFrame 64 (after_calls 3 64 (opened audio_container))) = 17
   \<and> fst (readNextFrame 64 (after_calls 4 64 (opened audio_container))) = 17
   \<and> fst (readNextFrame 64 (after_calls 5 64 (opened audio_container))) = 17
   \<and> fst (snd (readNextFrame 64 (after_calls 3 64 (opened audio_container))))
       = [255, 241, 80, 128, 2, 63, 252, 31, 32, 33, 34, 35, 36, 37, 38, 39, 40]
   \<and> fst (snd (readNextFrame 64 (after_calls 4 64 (opened audio_container))))
       = [255, 241, 80, 128, 2, 63, 252, 41, 42, 43, 44, 45, 46, 47, 48, 49, 50]
   \<and> fst (readNextFrame 64 (after_calls 6 64 (opened audio_container))) = 0
   \<and> fst (readNextFrame 64 (after_calls 7 64 (opened audio_container))) = 0"
proof -
  have op: "open (Some \<lparr> contents = audio_container, position = 0 \<rparr>) False new_parser
     = (True, opened audio_container)" by (simp add: open_audio opened_audio)
  have buf: "unat (10 :: u32) + 7 \<le> unat (64 :: u32)" by simp
  have f: "sampleRate (opened audio_container) = 44100" "channels (opened audio_container) = 2"
    by (simp_all add: opened_audio state_fields)
  note t = uniform_track_frames [OF op uniform_audio buf]
  from t [of 0] t [of 1] t [of 2] t [of 3] t [of 4] t [of 5] t [of 6] t [of 7]
  show ?thesis
    by (simp add: op uniform_audio f payload_audio generateAdtsHeader_def freqIdx_def)
qed

end
